theory Spec2Isabelle
  imports Main "HOL-Library.Word" "HOL-Library.Monad_Syntax"
begin

section \<open>The data model\<close>

text \<open>
  The C++ type \<^verbatim>\<open>int\<close> is a 32-bit two's-complement integer: \<open>+\<close> and \<open>-\<close> wrap
  around (ISO C++ leaves the overflowing case undefined; the wrap-around is what the usual
  targets compute), and the comparisons \<^verbatim>\<open><\<close>, \<^verbatim>\<open>>\<close> are the signed ones.
  A \<^verbatim>\<open>TileNode*\<close> is either \<^verbatim>\<open>nullptr\<close> (\<open>None\<close>) or an address of the free
  store.
\<close>

type_synonym cint = "32 word"
type_synonym addr = nat
type_synonym ptr = "addr option"

text \<open>
  The struct \<^verbatim>\<open>TileNode\<close> with the fields \<^verbatim>\<open>tilelist.cpp\<close> reads and writes
  (\<^verbatim>\<open>x\<close> and \<^verbatim>\<open>y\<close> are called \<open>tx\<close> and \<open>ty\<close> here), in the order of the
  constructor call \<^verbatim>\<open>TileNode(x, y, width, height, color, prev, next)\<close>.
\<close>

record TileNode =
  tx :: cint
  ty :: cint
  width :: cint
  height :: cint
  color :: string
  prev :: ptr
  "next" :: ptr

text \<open>
  Modelled from the spec: \<^verbatim>\<open>TileNode::contains\<close> is declared in \<^verbatim>\<open>tilenode.h\<close>, which
  is not among the sources. The spec: ``\<^verbatim>\<open>contains(px,py)\<close> holds iff
  \<^verbatim>\<open>x <= px < x+width\<close> and \<^verbatim>\<open>y <= py < y+height\<close>''.
\<close>

definition "contains" :: "TileNode \<Rightarrow> cint \<Rightarrow> cint \<Rightarrow> bool" where
  "contains n px py \<longleftrightarrow>
     tx n \<le>s px \<and> px <s tx n + width n \<and> ty n \<le>s py \<and> py <s ty n + height n"

text \<open>
  The free store holds the nodes that are alive. A \<^verbatim>\<open>TileList\<close> object is its two
  pointers; the store is carried along with it, so that every operation is a function from
  the state before to the state after. An operation has no result (\<open>None\<close>) where the
  C++ program has no defined behaviour (it dereferences \<^verbatim>\<open>nullptr\<close> or a deleted node)
  or does not return.
\<close>

type_synonym heap = "addr \<Rightarrow> TileNode option"

record TileList =
  front :: ptr
  "back" :: ptr
  store :: heap

text \<open>Reading \<^verbatim>\<open>*p\<close>, and writing to a field of \<^verbatim>\<open>*p\<close>.\<close>

definition deref :: "heap \<Rightarrow> ptr \<Rightarrow> TileNode option" where
  "deref h p = (case p of None \<Rightarrow> None | Some a \<Rightarrow> h a)"

definition assign :: "heap \<Rightarrow> ptr \<Rightarrow> (TileNode \<Rightarrow> TileNode) \<Rightarrow> heap option" where
  "assign h p f =
     (case p of None \<Rightarrow> None
      | Some a \<Rightarrow> (case h a of None \<Rightarrow> None | Some n \<Rightarrow> Some (h(a \<mapsto> f n))))"

text \<open>
  \<^verbatim>\<open>new TileNode(...)\<close>: the address \<open>a\<close> is the one the allocator returns. The
  allocator only ever returns an address that is not alive; there is no result for another
  one. \<^verbatim>\<open>delete p\<close> does nothing on \<^verbatim>\<open>nullptr\<close> and is undefined on a node that is not
  alive.
\<close>

definition new_TileNode :: "addr \<Rightarrow> TileNode \<Rightarrow> heap \<Rightarrow> heap option" where
  "new_TileNode a n h = (if h a = None then Some (h(a \<mapsto> n)) else None)"

definition delete_node :: "ptr \<Rightarrow> heap \<Rightarrow> heap option" where
  "delete_node p h =
     (case p of None \<Rightarrow> Some h
      | Some a \<Rightarrow> (case h a of None \<Rightarrow> None | Some n \<Rightarrow> Some (h(a := None))))"

section \<open>The operations of \<^verbatim>\<open>tilelist.cpp\<close>\<close>

text \<open>The constructor.\<close>

definition TileList_init :: "heap \<Rightarrow> TileList" where
  "TileList_init h = \<lparr>front = None, back = None, store = h\<rparr>"

text \<open>\<^verbatim>\<open>findTile\<close>: the loop over \<^verbatim>\<open>current\<close>, then the function.\<close>

partial_function (option) findTile_loop :: "heap \<Rightarrow> cint \<Rightarrow> cint \<Rightarrow> ptr \<Rightarrow> ptr option" where
  "findTile_loop h px py current =
     (if current \<noteq> None
      then do {
        n \<leftarrow> deref h current;
        if contains n px py then Some current
        else findTile_loop h px py (next n) }
      else Some None)"

definition findTile :: "cint \<Rightarrow> cint \<Rightarrow> TileList \<Rightarrow> ptr option" where
  "findTile px py s = findTile_loop (store s) px py (front s)"

text \<open>
  \<^verbatim>\<open>detachTile\<close>. The second statement reads \<^verbatim>\<open>tile->next\<close> and \<^verbatim>\<open>tile->prev\<close>
  again, after the first one has written.
\<close>

definition detachTile :: "ptr \<Rightarrow> TileList \<Rightarrow> TileList option" where
  "detachTile tile s = do {
     t \<leftarrow> deref (store s) tile;
     s1 \<leftarrow> (if tile \<noteq> front s
            then do {
              h1 \<leftarrow> assign (store s) (prev t) (\<lambda>n. n\<lparr>next := next t\<rparr>);
              Some (s\<lparr>store := h1\<rparr>) }
            else Some (s\<lparr>front := next t\<rparr>));
     t1 \<leftarrow> deref (store s1) tile;
     if tile \<noteq> back s1
     then do {
       h2 \<leftarrow> assign (store s1) (next t1) (\<lambda>n. n\<lparr>prev := prev t1\<rparr>);
       Some (s1\<lparr>store := h2\<rparr>) }
     else Some (s1\<lparr>back := prev t1\<rparr>) }"

definition attachFront :: "ptr \<Rightarrow> TileList \<Rightarrow> TileList option" where
  "attachFront newFront s = do {
     h1 \<leftarrow> assign (store s) newFront (\<lambda>n. n\<lparr>prev := None\<rparr>);
     if front s = None
     then Some (s\<lparr>store := h1, front := newFront, back := newFront\<rparr>)
     else do {
       h2 \<leftarrow> assign h1 newFront (\<lambda>n. n\<lparr>next := front s\<rparr>);
       h3 \<leftarrow> assign h2 (front s) (\<lambda>n. n\<lparr>prev := newFront\<rparr>);
       Some (s\<lparr>store := h3, front := newFront\<rparr>) } }"

definition addFront ::
  "addr \<Rightarrow> cint \<Rightarrow> cint \<Rightarrow> cint \<Rightarrow> cint \<Rightarrow> string \<Rightarrow> TileList \<Rightarrow> TileList option" where
  "addFront a px py w h c s = do {
     h1 \<leftarrow> new_TileNode a
            \<lparr>tx = px, ty = py, width = w, height = h, color = c, prev = None, next = None\<rparr>
            (store s);
     attachFront (Some a) (s\<lparr>store := h1\<rparr>) }"

definition attachBack :: "ptr \<Rightarrow> TileList \<Rightarrow> TileList option" where
  "attachBack newBack s = do {
     h1 \<leftarrow> assign (store s) newBack (\<lambda>n. n\<lparr>next := None\<rparr>);
     if front s = None
     then Some (s\<lparr>store := h1, front := newBack, back := newBack\<rparr>)
     else do {
       h2 \<leftarrow> assign h1 newBack (\<lambda>n. n\<lparr>prev := back s\<rparr>);
       h3 \<leftarrow> assign h2 (back s) (\<lambda>n. n\<lparr>next := newBack\<rparr>);
       Some (s\<lparr>store := h3, back := newBack\<rparr>) } }"

definition addBack ::
  "addr \<Rightarrow> cint \<Rightarrow> cint \<Rightarrow> cint \<Rightarrow> cint \<Rightarrow> string \<Rightarrow> TileList \<Rightarrow> TileList option" where
  "addBack a px py w h c s = do {
     h1 \<leftarrow> new_TileNode a
            \<lparr>tx = px, ty = py, width = w, height = h, color = c, prev = None, next = None\<rparr>
            (store s);
     attachBack (Some a) (s\<lparr>store := h1\<rparr>) }"

text \<open>\<^verbatim>\<open>clear\<close>: the \<^verbatim>\<open>while\<close> loop, then the two assignments.\<close>

partial_function (option) clear_loop :: "TileList \<Rightarrow> TileList option" where
  "clear_loop s =
     (if front s \<noteq> back s
      then do {
        n \<leftarrow> deref (store s) (front s);
        h1 \<leftarrow> delete_node (front s) (store s);
        clear_loop (s\<lparr>front := next n, store := h1\<rparr>) }
      else Some s)"

definition clear :: "TileList \<Rightarrow> TileList option" where
  "clear s = do {
     s1 \<leftarrow> clear_loop s;
     Some (s1\<lparr>front := None, back := None\<rparr>) }"

definition getFront :: "TileList \<Rightarrow> ptr" where
  "getFront s = front s"

definition getBack :: "TileList \<Rightarrow> ptr" where
  "getBack s = back s"

definition highlight :: "cint \<Rightarrow> cint \<Rightarrow> TileList \<Rightarrow> (TileList \<times> bool) option" where
  "highlight px py s = do {
     tile \<leftarrow> findTile px py s;
     if tile \<noteq> None
     then do {
       h1 \<leftarrow> assign (store s) tile (\<lambda>n. n\<lparr>color := ''yellow''\<rparr>);
       Some (s\<lparr>store := h1\<rparr>, True) }
     else Some (s, False) }"

definition raise :: "cint \<Rightarrow> cint \<Rightarrow> TileList \<Rightarrow> (TileList \<times> bool) option" where
  "raise px py s = do {
     tile \<leftarrow> findTile px py s;
     if tile \<noteq> None \<and> tile \<noteq> front s
     then do {
       s1 \<leftarrow> detachTile tile s;
       s2 \<leftarrow> attachFront tile s1;
       Some (s2, True) }
     else Some (s, False) }"

definition lower :: "cint \<Rightarrow> cint \<Rightarrow> TileList \<Rightarrow> (TileList \<times> bool) option" where
  "lower px py s = do {
     tile \<leftarrow> findTile px py s;
     if tile \<noteq> None \<and> tile \<noteq> back s
     then do {
       s1 \<leftarrow> detachTile tile s;
       s2 \<leftarrow> attachBack tile s1;
       Some (s2, True) }
     else Some (s, False) }"

definition remove :: "cint \<Rightarrow> cint \<Rightarrow> TileList \<Rightarrow> (TileList \<times> bool) option" where
  "remove px py s = do {
     tile \<leftarrow> findTile px py s;
     if tile \<noteq> None
     then do {
       s1 \<leftarrow> detachTile tile s;
       h1 \<leftarrow> delete_node tile (store s1);
       Some (s1\<lparr>store := h1\<rparr>, True) }
     else Some (s, False) }"

text \<open>
  \<^verbatim>\<open>removeAll\<close> (the name with a suffix, \<open>removeAll\<close> being a function on HOL lists):
  the \<^verbatim>\<open>for\<close> loop with its counter, then the function, which starts the counter at 0.
\<close>

partial_function (option) removeAll_loop ::
  "cint \<Rightarrow> cint \<Rightarrow> TileList \<Rightarrow> cint \<Rightarrow> (TileList \<times> cint) option" where
  "removeAll_loop px py s removed = do {
     tile \<leftarrow> findTile px py s;
     if tile \<noteq> None
     then do {
       s1 \<leftarrow> detachTile tile s;
       h1 \<leftarrow> delete_node tile (store s1);
       removeAll_loop px py (s1\<lparr>store := h1\<rparr>) (removed + 1) }
     else Some (s, removed) }"

definition removeAll_tiles :: "cint \<Rightarrow> cint \<Rightarrow> TileList \<Rightarrow> (TileList \<times> cint) option" where
  "removeAll_tiles px py s = removeAll_loop px py s 0"

text \<open>
  \<^verbatim>\<open>merge\<close>: the four running bounds \<^verbatim>\<open>minX\<close>, \<^verbatim>\<open>maxX\<close>, \<^verbatim>\<open>minY\<close>, \<^verbatim>\<open>maxY\<close> are
  a record; the \<^verbatim>\<open>for\<close> loop starts with the tile already found and reads the tile's
  fields after it has been detached.
\<close>

record bounds =
  minX :: cint
  maxX :: cint
  minY :: cint
  maxY :: cint

definition grow :: "TileNode \<Rightarrow> bounds \<Rightarrow> bounds" where
  "grow t b =
     (let b1 = (if tx t <s minX b then b\<lparr>minX := tx t\<rparr> else b);
          b2 = (if maxX b1 <s tx t + width t then b1\<lparr>maxX := tx t + width t\<rparr> else b1);
          b3 = (if ty t <s minY b2 then b2\<lparr>minY := ty t\<rparr> else b2)
      in (if maxY b3 <s ty t + height t then b3\<lparr>maxY := ty t + height t\<rparr> else b3))"

partial_function (option) merge_loop ::
  "cint \<Rightarrow> cint \<Rightarrow> ptr \<Rightarrow> TileList \<Rightarrow> bounds \<Rightarrow> (TileList \<times> bounds) option" where
  "merge_loop px py tile s b =
     (if tile \<noteq> None
      then do {
        s1 \<leftarrow> detachTile tile s;
        t \<leftarrow> deref (store s1) tile;
        h1 \<leftarrow> delete_node tile (store s1);
        tile' \<leftarrow> findTile px py (s1\<lparr>store := h1\<rparr>);
        merge_loop px py tile' (s1\<lparr>store := h1\<rparr>) (grow t b) }
      else Some (s, b))"

definition merge :: "addr \<Rightarrow> cint \<Rightarrow> cint \<Rightarrow> TileList \<Rightarrow> TileList option" where
  "merge a px py s = do {
     tile \<leftarrow> findTile px py s;
     if tile = None then Some s
     else do {
       t \<leftarrow> deref (store s) tile;
       (s1, b) \<leftarrow> merge_loop px py tile s
                   \<lparr>minX = tx t, maxX = tx t + width t, minY = ty t, maxY = ty t + height t\<rparr>;
       addFront a (minX b) (minY b) (maxX b - minX b) (maxY b - minY b) (color t) s1 } }"

section \<open>Well-formed lists and what they hold\<close>

text \<open>
  \<open>path f h p as q\<close>: following the pointer field \<open>f\<close> from \<open>p\<close> visits the
  nodes \<open>as\<close>, all alive, in this order and arrives at \<open>q\<close>.
\<close>

fun path :: "(TileNode \<Rightarrow> ptr) \<Rightarrow> heap \<Rightarrow> ptr \<Rightarrow> addr list \<Rightarrow> ptr \<Rightarrow> bool" where
  "path f h p [] q = (p = q)"
| "path f h p (a # as) q =
     (p = Some a \<and> (case h a of None \<Rightarrow> False | Some n \<Rightarrow> path f h (f n) as q))"

text \<open>
  \<open>dll s as\<close>: the list \<open>s\<close> holds the nodes \<open>as\<close>, front to back. No node occurs
  twice, \<^verbatim>\<open>next\<close> leads from \<^verbatim>\<open>front\<close> through \<open>as\<close> to \<^verbatim>\<open>nullptr\<close>, and \<^verbatim>\<open>prev\<close>
  leads from \<^verbatim>\<open>back\<close> through \<open>as\<close> reversed to \<^verbatim>\<open>nullptr\<close>.
\<close>

definition dll :: "TileList \<Rightarrow> addr list \<Rightarrow> bool" where
  "dll s as \<longleftrightarrow>
     distinct as \<and> path next (store s) (front s) as None
       \<and> path prev (store s) (back s) (rev as) None"

text \<open>
  The same in terms of positions: \<open>linked s as\<close> says that no node occurs twice in
  \<open>as\<close>, that \<^verbatim>\<open>front\<close> is its first node and \<^verbatim>\<open>back\<close> its last (both \<^verbatim>\<open>nullptr\<close>
  when it is empty), and that every node of \<open>as\<close> is alive, its \<^verbatim>\<open>prev\<close> the node before
  it (\<^verbatim>\<open>nullptr\<close> for the first) and its \<^verbatim>\<open>next\<close> the node after it (\<^verbatim>\<open>nullptr\<close> for
  the last). A list is well formed when its two end pointers are null together and it is
  linked in this way along some sequence of nodes.
\<close>

definition linked :: "TileList \<Rightarrow> addr list \<Rightarrow> bool" where
  "linked s as \<longleftrightarrow>
     distinct as
     \<and> front s = (if as = [] then None else Some (hd as))
     \<and> back s = (if as = [] then None else Some (last as))
     \<and> (\<forall>i<length as. \<exists>n. store s (as ! i) = Some n
            \<and> prev n = (if i = 0 then None else Some (as ! (i - 1)))
            \<and> next n = (if Suc i = length as then None else Some (as ! Suc i)))"

definition well_formed :: "TileList \<Rightarrow> bool" where
  "well_formed s \<longleftrightarrow> (front s = None \<longleftrightarrow> back s = None) \<and> (\<exists>as. linked s as)"

text \<open>The tile a node carries: its geometry and colour, without the two links.\<close>

type_synonym tile = "cint \<times> cint \<times> cint \<times> cint \<times> string"

definition tile_of :: "TileNode \<Rightarrow> tile" where
  "tile_of n = (tx n, ty n, width n, height n, color n)"

definition tile_at :: "heap \<Rightarrow> addr \<Rightarrow> tile option" where
  "tile_at h a = map_option tile_of (h a)"

text \<open>The node at \<open>a\<close> is alive and its rectangle contains the point.\<close>

definition covers :: "heap \<Rightarrow> cint \<Rightarrow> cint \<Rightarrow> addr \<Rightarrow> bool" where
  "covers h px py a = (case h a of None \<Rightarrow> False | Some n \<Rightarrow> contains n px py)"

text \<open>
  The nodes of \<open>ms\<close> that contain the point, in the order of \<open>ms\<close>: the tiles that
  \<^verbatim>\<open>removeAll\<close> and \<^verbatim>\<open>merge\<close> remove.
\<close>

fun matching :: "heap \<Rightarrow> cint \<Rightarrow> cint \<Rightarrow> addr list \<Rightarrow> TileNode list" where
  "matching h px py [] = []"
| "matching h px py (m # ms) =
     (case h m of
        None \<Rightarrow> matching h px py ms
      | Some t \<Rightarrow> if contains t px py then t # matching h px py ms else matching h px py ms)"

text \<open>
  The rectangle of \<open>n\<close> is the smallest axis-aligned box around the rectangles of \<open>ts\<close>:
  its left and top edges are below or equal to theirs, its right and bottom edges above or
  equal to theirs, and each of its four edges is the edge of one of them. The edges are
  \<^verbatim>\<open>x\<close>, \<^verbatim>\<open>x + width\<close>, \<^verbatim>\<open>y\<close> and \<^verbatim>\<open>y + height\<close> in the arithmetic of \<^verbatim>\<open>int\<close>, as
  \<^verbatim>\<open>contains\<close> and \<^verbatim>\<open>merge\<close> compute them, and are compared as signed integers.
\<close>

definition bounding_box :: "TileNode \<Rightarrow> TileNode list \<Rightarrow> bool" where
  "bounding_box n ts \<longleftrightarrow>
     (\<forall>t\<in>set ts. tx n \<le>s tx t \<and> tx t + width t \<le>s tx n + width n
                 \<and> ty n \<le>s ty t \<and> ty t + height t \<le>s ty n + height n)
     \<and> (\<exists>t\<in>set ts. tx n = tx t) \<and> (\<exists>t\<in>set ts. tx n + width n = tx t + width t)
     \<and> (\<exists>t\<in>set ts. ty n = ty t) \<and> (\<exists>t\<in>set ts. ty n + height n = ty t + height t)"

text \<open>The bounds after the loop of \<^verbatim>\<open>merge\<close> has met the nodes \<open>xs\<close> in this order.\<close>

fun grow_all :: "heap \<Rightarrow> addr list \<Rightarrow> bounds \<Rightarrow> bounds" where
  "grow_all h [] b = b"
| "grow_all h (x # xs) b = grow_all h xs (case h x of None \<Rightarrow> b | Some n \<Rightarrow> grow n b)"

section \<open>Sequences of calls\<close>

text \<open>
  The public operations as values, each with its arguments; the calls that allocate carry
  the address the allocator returns. \<open>exec\<close> makes the call and keeps the list,
  \<open>run\<close> makes the calls of a sequence one after the other.
\<close>

datatype operation =
    AddFront addr cint cint cint cint string
  | AddBack addr cint cint cint cint string
  | Highlight cint cint
  | Raise cint cint
  | Lower cint cint
  | Remove cint cint
  | RemoveAll cint cint
  | Merge addr cint cint
  | Clear

fun exec :: "operation \<Rightarrow> TileList \<Rightarrow> TileList option" where
  "exec (AddFront a px py w h c) s = addFront a px py w h c s"
| "exec (AddBack a px py w h c) s = addBack a px py w h c s"
| "exec (Highlight px py) s = map_option fst (highlight px py s)"
| "exec (Raise px py) s = map_option fst (raise px py s)"
| "exec (Lower px py) s = map_option fst (lower px py s)"
| "exec (Remove px py) s = map_option fst (remove px py s)"
| "exec (RemoveAll px py) s = map_option fst (removeAll_tiles px py s)"
| "exec (Merge a px py) s = merge a px py s"
| "exec Clear s = clear s"

fun run :: "operation list \<Rightarrow> TileList \<Rightarrow> TileList option" where
  "run [] s = Some s"
| "run (op # ops) s = (case exec op s of None \<Rightarrow> None | Some s' \<Rightarrow> run ops s')"

text \<open>
  The address of a call is one the allocator can return: it is not alive when
  \<^verbatim>\<open>new\<close> is reached. For \<^verbatim>\<open>merge\<close> that is after the tiles at the point have been
  deleted, which are the tiles \<^verbatim>\<open>removeAll\<close> deletes.
\<close>

fun fresh_for :: "operation \<Rightarrow> TileList \<Rightarrow> bool" where
  "fresh_for (AddFront a px py w h c) s = (store s a = None)"
| "fresh_for (AddBack a px py w h c) s = (store s a = None)"
| "fresh_for (Merge a px py) s =
     (case removeAll_tiles px py s of None \<Rightarrow> False | Some (s1, k) \<Rightarrow> store s1 a = None)"
| "fresh_for op s = True"

section \<open>Neighbours\<close>

text \<open>
  The pairs of nodes that follow one another in a list, front to back. \<open>others_kept a as as'\<close>
  compares the list before and after the node \<open>a\<close> has been moved or removed: \<open>as'\<close>
  has no node twice, the nodes other than \<open>a\<close> are in the same order in both, every
  pair of neighbours of \<open>as\<close> without \<open>a\<close> is a pair of neighbours of \<open>as'\<close>, and
  the pairs of neighbours of \<open>as'\<close> without \<open>a\<close> are those of \<open>as\<close> with \<open>a\<close>
  left out.
\<close>

definition neighbours :: "addr list \<Rightarrow> (addr \<times> addr) set" where
  "neighbours as = set (zip as (tl as))"

definition others_kept :: "addr \<Rightarrow> addr list \<Rightarrow> addr list \<Rightarrow> bool" where
  "others_kept a as as' \<longleftrightarrow>
     distinct as'
     \<and> filter (\<lambda>x. x \<noteq> a) as' = filter (\<lambda>x. x \<noteq> a) as
     \<and> (\<forall>(u, v)\<in>neighbours as. u \<noteq> a \<and> v \<noteq> a \<longrightarrow> (u, v) \<in> neighbours as')
     \<and> {(u, v). (u, v) \<in> neighbours as' \<and> u \<noteq> a \<and> v \<noteq> a}
           = neighbours (filter (\<lambda>x. x \<noteq> a) as)"

section \<open>Example lists\<close>

text \<open>
  The two tiles of the spec's merge example, red in front of blue, as the calls
  \<^verbatim>\<open>addFront(5, 5, 10, 10, "blue")\<close> and then \<^verbatim>\<open>addFront(0, 0, 10, 10, "red")\<close>
  leave them when the allocator returns the addresses 1 and 0.
\<close>

definition two_tiles :: TileList where
  "two_tiles =
     \<lparr>front = Some 0, back = Some 1,
      store = [0 \<mapsto> \<lparr>tx = 0, ty = 0, width = 10, height = 10, color = ''red'',
                        prev = None, next = Some 1\<rparr>,
               1 \<mapsto> \<lparr>tx = 5, ty = 5, width = 10, height = 10, color = ''blue'',
                        prev = Some 0, next = None\<rparr>]\<rparr>"

text \<open>
  Three tiles stacked over the point (6, 6), as \<^verbatim>\<open>addFront(0, 0, 10, 10, "red")\<close>,
  \<^verbatim>\<open>addBack(5, 5, 10, 10, "blue")\<close> and \<^verbatim>\<open>addBack(2, 2, 10, 10, "green")\<close> leave them with
  the addresses 0, 1 and 2; only the red one contains (1, 1), only the blue one (13, 13).
\<close>

definition three_tiles :: TileList where
  "three_tiles =
     \<lparr>front = Some 0, back = Some 2,
      store = [0 \<mapsto> \<lparr>tx = 0, ty = 0, width = 10, height = 10, color = ''red'',
                        prev = None, next = Some 1\<rparr>,
               1 \<mapsto> \<lparr>tx = 5, ty = 5, width = 10, height = 10, color = ''blue'',
                        prev = Some 0, next = Some 2\<rparr>,
               2 \<mapsto> \<lparr>tx = 2, ty = 2, width = 10, height = 10, color = ''green'',
                        prev = Some 1, next = None\<rparr>]\<rparr>"

text \<open>The three tiles after \<^verbatim>\<open>raise(13, 13)\<close>, which only the blue one contains.\<close>

definition three_tiles_raised :: TileList where
  "three_tiles_raised =
     \<lparr>front = Some 1, back = Some 2,
      store = [0 \<mapsto> \<lparr>tx = 0, ty = 0, width = 10, height = 10, color = ''red'',
                        prev = Some 1, next = Some 2\<rparr>,
               1 \<mapsto> \<lparr>tx = 5, ty = 5, width = 10, height = 10, color = ''blue'',
                        prev = None, next = Some 0\<rparr>,
               2 \<mapsto> \<lparr>tx = 2, ty = 2, width = 10, height = 10, color = ''green'',
                        prev = Some 0, next = None\<rparr>]\<rparr>"

section \<open>Paths in the store\<close>

lemma path_append:
  "path f h p (as @ bs) q \<longleftrightarrow> (\<exists>r. path f h p as r \<and> path f h r bs q)"
  by (induction as arbitrary: p) (auto split: option.splits)

lemma path_snoc:
  "path f h p (as @ [b]) q \<longleftrightarrow> path f h p as (Some b) \<and> (\<exists>n. h b = Some n \<and> f n = q)"
  by (auto simp: path_append split: option.splits)

lemma path_cong:
  "(\<And>a. a \<in> set as \<Longrightarrow> map_option f (h' a) = map_option f (h a))
     \<Longrightarrow> path f h' p as q = path f h p as q"
proof (induction as arbitrary: p)
  case Nil
  then show ?case by simp
next
  case (Cons a as)
  have "map_option f (h' a) = map_option f (h a)" using Cons.prems by simp
  moreover have "\<And>r. path f h' r as q = path f h r as q"
    using Cons.IH Cons.prems by simp
  ultimately show ?case
    by (cases "h a"; cases "h' a") auto
qed

lemma path_None: "path f h None as q \<longleftrightarrow> as = [] \<and> q = None"
  by (cases as) auto

lemma path_unique: "path f h p as None \<Longrightarrow> path f h p bs None \<Longrightarrow> as = bs"
proof (induction as arbitrary: p bs)
  case Nil
  then show ?case by (cases bs) auto
next
  case (Cons a as)
  then show ?case by (cases bs) (auto split: option.splits)
qed

lemma path_live: "path f h p as q \<Longrightarrow> a \<in> set as \<Longrightarrow> \<exists>n. h a = Some n"
  by (induction as arbitrary: p) (auto split: option.splits)

lemma findTile_loop_path:
  "path next h p as None \<Longrightarrow> findTile_loop h px py p = Some (find (covers h px py) as)"
proof (induction as arbitrary: p)
  case Nil
  then show ?case by (simp add: findTile_loop.simps)
next
  case (Cons a as)
  then obtain n where n: "p = Some a" "h a = Some n" "path next h (next n) as None"
    by (auto split: option.splits)
  have c: "covers h px py a = contains n px py" using n(2) by (simp add: covers_def)
  show ?case
    using Cons.IH [OF n(3)] n(1,2) c
    by (subst findTile_loop.simps) (simp add: deref_def)
qed

lemma path_unlink:
  assumes p: "path f h p (bs @ a # cs) None"
    and d: "distinct (bs @ a # cs)"
    and t: "h a = Some t"
    and h': "\<And>x. x \<in> set (bs @ cs) \<Longrightarrow>
               map_option f (h' x) =
                 (if bs \<noteq> [] \<and> x = last bs then map_option (\<lambda>_. f t) (h x)
                  else map_option f (h x))"
  shows "path f h' (if bs = [] then f t else p) (bs @ cs) None"
proof (cases bs rule: rev_cases)
  case Nil
  have "path f h (f t) cs None" using p t Nil by simp
  moreover have "map_option f (h' x) = map_option f (h x)" if "x \<in> set cs" for x
    using h' [of x] that Nil by simp
  ultimately have "path f h' (f t) cs None" using path_cong [of cs f h' h] by simp
  then show ?thesis using Nil by simp
next
  case (snoc bs' b)
  from p snoc obtain nb where
    1: "path f h p bs' (Some b)" and nb: "h b = Some nb" and 2: "path f h (f t) cs None"
    using t by (auto simp: path_append split: option.splits)
  have "map_option f (h' x) = map_option f (h x)" if "x \<in> set bs'" for x
  proof -
    have "x \<noteq> b" using that d snoc by auto
    then show ?thesis using h' [of x] that snoc by simp
  qed
  then have 3: "path f h' p bs' (Some b)" using 1 path_cong [of bs' f h' h] by simp
  have "map_option f (h' x) = map_option f (h x)" if "x \<in> set cs" for x
  proof -
    have "x \<noteq> b" using that d snoc by auto
    then show ?thesis using h' [of x] that snoc by simp
  qed
  then have 4: "path f h' (f t) cs None" using 2 path_cong [of cs f h' h] by simp
  have "map_option f (h' b) = Some (f t)" using h' [of b] snoc nb by simp
  then obtain nb' where 5: "h' b = Some nb'" "f nb' = f t" by auto
  show ?thesis using snoc 3 4 5 by (simp add: path_append)
qed

lemma dll_front: "dll s as \<Longrightarrow> front s = (case as of [] \<Rightarrow> None | a # _ \<Rightarrow> Some a)"
  by (cases as) (auto simp: dll_def)

lemma dll_back: "dll s as \<Longrightarrow> back s = (if as = [] then None else Some (last as))"
  by (cases as rule: rev_cases) (auto simp: dll_def)

lemma dll_split:
  assumes "dll s (bs @ a # cs)"
  obtains t where "store s a = Some t"
    "path next (store s) (front s) (bs @ a # cs) None"
    "path prev (store s) (back s) (rev cs @ a # rev bs) None"
    "path next (store s) (next t) cs None"
    "path prev (store s) (prev t) (rev bs) None"
    "distinct (bs @ a # cs)"
    "a \<notin> set bs" "a \<notin> set cs"
proof -
  have 1: "path next (store s) (front s) (bs @ a # cs) None"
    and 2: "path prev (store s) (back s) (rev cs @ a # rev bs) None"
    and 3: "distinct (bs @ a # cs)"
    using assms by (simp_all add: dll_def)
  from 1 obtain t where t: "store s a = Some t" "path next (store s) (next t) cs None"
    by (auto simp: path_append split: option.splits)
  from 2 t have "path prev (store s) (prev t) (rev bs) None"
    by (auto simp: path_append split: option.splits)
  with 1 2 3 t show ?thesis using that by auto
qed

lemma tile_of_links [simp]:
  "tile_of (n\<lparr>next := q\<rparr>) = tile_of n" "tile_of (n\<lparr>prev := q\<rparr>) = tile_of n"
  by (simp_all add: tile_of_def)

section \<open>Detaching and attaching a node\<close>

lemma detachTile_result:
  assumes dll: "dll s (bs @ a # cs)" and t: "store s a = Some t"
  shows "\<exists>s'. detachTile (Some a) s = Some s'
           \<and> front s' = (if bs = [] then next t else front s)
           \<and> back s' = (if cs = [] then prev t else back s)
           \<and> (\<forall>x. store s' x =
                 (if bs \<noteq> [] \<and> x = last bs
                  then map_option (\<lambda>n. n\<lparr>next := next t\<rparr>) (store s x)
                  else if cs \<noteq> [] \<and> x = hd cs
                  then map_option (\<lambda>n. n\<lparr>prev := prev t\<rparr>) (store s x)
                  else store s x))"
proof -
  from dll obtain t' where t': "store s a = Some t'"
    and pn: "path next (store s) (next t') cs None"
    and pp: "path prev (store s) (prev t') (rev bs) None"
    and d: "distinct (bs @ a # cs)"
    by (rule dll_split)
  have tt: "t' = t" using t t' by simp
  have fr: "front s = (case bs @ a # cs of [] \<Rightarrow> None | x # _ \<Rightarrow> Some x)"
    using dll by (rule dll_front)
  have bk: "back s = Some (last (a # cs))"
    using dll_back [OF dll] by simp
  show ?thesis
  proof (cases bs rule: rev_cases)
    case Nil
    note bs = Nil
    have f: "front s = Some a" using fr bs by simp
    show ?thesis
    proof (cases cs)
      case Nil
      have b: "back s = Some a" using bk Nil by simp
      show ?thesis using bs Nil f b t
        by (simp add: detachTile_def deref_def)
    next
      case (Cons c cs')
      have b: "back s \<noteq> Some a" using bk Cons d by auto
      from pn Cons tt obtain nc where c: "next t = Some c" "store s c = Some nc"
        by (auto split: option.splits)
      show ?thesis using bs Cons f b t c
        by (simp add: detachTile_def deref_def assign_def)
    qed
  next
    case (snoc bs' b')
    note bs = snoc
    have f: "front s \<noteq> Some a" using fr bs d by (cases bs') auto
    from pp bs tt obtain nb where b': "prev t = Some b'" "store s b' = Some nb"
      by (auto split: option.splits)
    have ne: "b' \<noteq> a" using d bs by auto
    show ?thesis
    proof (cases cs)
      case Nil
      have b: "back s = Some a" using bk Nil by simp
      show ?thesis using bs Nil f b t b' ne
        by (simp add: detachTile_def deref_def assign_def)
    next
      case (Cons c cs')
      have b: "back s \<noteq> Some a" using bk Cons d by auto
      from pn Cons tt obtain nc where c: "next t = Some c" "store s c = Some nc"
        by (auto split: option.splits)
      have ne2: "c \<noteq> b'" "c \<noteq> a" using d bs Cons by auto
      show ?thesis using bs Cons f b t b' ne c ne2
        by (simp add: detachTile_def deref_def assign_def)
    qed
  qed
qed


lemma detachTile_dll:
  assumes dll: "dll s (bs @ a # cs)"
  shows "\<exists>s'. detachTile (Some a) s = Some s' \<and> dll s' (bs @ cs)
           \<and> (\<forall>x. x \<notin> set (bs @ cs) \<longrightarrow> store s' x = store s x)
           \<and> (\<forall>x. tile_at (store s') x = tile_at (store s) x)"
proof -
  from dll obtain t where t: "store s a = Some t"
    and pn: "path next (store s) (front s) (bs @ a # cs) None"
    and pp: "path prev (store s) (back s) (rev cs @ a # rev bs) None"
    and d: "distinct (bs @ a # cs)"
    by (rule dll_split)
  from detachTile_result [OF dll t] obtain s' where
    r: "detachTile (Some a) s = Some s'"
    and f: "front s' = (if bs = [] then next t else front s)"
    and b: "back s' = (if cs = [] then prev t else back s)"
    and h: "\<And>x. store s' x =
                 (if bs \<noteq> [] \<and> x = last bs
                  then map_option (\<lambda>n. n\<lparr>next := next t\<rparr>) (store s x)
                  else if cs \<noteq> [] \<and> x = hd cs
                  then map_option (\<lambda>n. n\<lparr>prev := prev t\<rparr>) (store s x)
                  else store s x)"
    by blast
  have 1: "path next (store s') (front s') (bs @ cs) None"
    unfolding f
  proof (rule path_unlink [OF pn d t])
    fix x assume "x \<in> set (bs @ cs)"
    show "map_option next (store s' x) =
            (if bs \<noteq> [] \<and> x = last bs then map_option (\<lambda>_. next t) (store s x)
             else map_option next (store s x))"
      by (simp add: h option.map_comp comp_def)
  qed
  have d': "distinct (rev cs @ a # rev bs)" using d by auto
  have "path prev (store s') (if rev cs = [] then prev t else back s) (rev cs @ rev bs) None"
  proof (rule path_unlink [OF pp d' t])
    fix x assume x: "x \<in> set (rev cs @ rev bs)"
    have "\<not> (bs \<noteq> [] \<and> x = last bs \<and> cs \<noteq> [] \<and> x = hd cs)"
      using d by (cases bs rule: rev_cases; cases cs) auto
    then show "map_option prev (store s' x) =
            (if rev cs \<noteq> [] \<and> x = last (rev cs) then map_option (\<lambda>_. prev t) (store s x)
             else map_option prev (store s x))"
      by (auto simp: h option.map_comp comp_def last_rev)
  qed
  then have 2: "path prev (store s') (back s') (rev (bs @ cs)) None"
    using b by simp
  have 3: "dll s' (bs @ cs)" using 1 2 d by (simp add: dll_def)
  have 4: "store s' x = store s x" if "x \<notin> set (bs @ cs)" for x
  proof -
    have "(bs \<noteq> [] \<and> x = last bs) = False" "(cs \<noteq> [] \<and> x = hd cs) = False"
      using that by auto
    then show ?thesis by (simp only: h if_False)
  qed
  have 5: "tile_at (store s') x = tile_at (store s) x" for x
    by (simp add: tile_at_def h option.map_comp comp_def)
  show ?thesis using r 3 4 5 by blast
qed

lemma path_frame:
  assumes "path f h p as q" and "\<And>x. x \<in> set as \<Longrightarrow> map_option f (h' x) = map_option f (h x)"
  shows "path f h' p as q"
  using assms path_cong [of as f h' h p q] by simp

lemma attachFront_dll:
  assumes dll: "dll s as" and a: "a \<notin> set as" and n: "store s a = Some n"
    and e: "as = [] \<Longrightarrow> next n = None"
  shows "\<exists>s'. attachFront (Some a) s = Some s' \<and> dll s' (a # as)
           \<and> (\<forall>x. x \<notin> set (a # as) \<longrightarrow> store s' x = store s x)
           \<and> (\<forall>x. tile_at (store s') x = tile_at (store s) x)"
proof (cases as)
  case Nil
  have f: "front s = None" using dll_front [OF dll] Nil by simp
  let ?s = "s\<lparr>store := (store s)(a \<mapsto> n\<lparr>prev := None\<rparr>), front := Some a, back := Some a\<rparr>"
  have 1: "attachFront (Some a) s = Some ?s"
    using f n by (simp add: attachFront_def assign_def)
  have 2: "dll ?s (a # as)" using Nil e by (simp add: dll_def)
  have 3: "tile_at (store ?s) x = tile_at (store s) x" for x
    using n by (simp add: tile_at_def)
  show ?thesis using 1 2 3 by simp
next
  case (Cons b bs)
  let ?h = "store s"
  have f: "front s = Some b" using dll_front [OF dll] Cons by simp
  have d: "distinct (b # bs)" and pn: "path next ?h (Some b) (b # bs) None"
    and pp: "path prev ?h (back s) (rev bs @ [b]) None"
    using dll f Cons by (simp_all add: dll_def)
  from pp obtain nb where nb: "?h b = Some nb" "prev nb = None"
    and pp': "path prev ?h (back s) (rev bs) (Some b)"
    by (auto simp: path_snoc)
  have ab: "a \<noteq> b" using a Cons by simp
  let ?h3 = "(?h(a \<mapsto> n\<lparr>prev := None, next := Some b\<rparr>))(b \<mapsto> nb\<lparr>prev := Some a\<rparr>)"
  let ?s = "s\<lparr>store := ?h3, front := Some a\<rparr>"
  have 1: "attachFront (Some a) s = Some ?s"
    using f n nb ab by (simp add: attachFront_def assign_def)
  have "path next ?h3 (Some b) (b # bs) None"
  proof (rule path_frame [OF pn])
    fix x assume "x \<in> set (b # bs)"
    then have "x \<noteq> a" using a Cons by auto
    then show "map_option next (?h3 x) = map_option next (?h x)"
      using nb by simp
  qed
  then have 2: "path next ?h3 (Some a) (a # b # bs) None"
    using ab by simp
  have "path prev ?h3 (back s) (rev bs) (Some b)"
  proof (rule path_frame [OF pp'])
    fix x assume "x \<in> set (rev bs)"
    then have "x \<noteq> a" "x \<noteq> b" using a Cons d by auto
    then show "map_option prev (?h3 x) = map_option prev (?h x)"
      by simp
  qed
  then have 3: "path prev ?h3 (back s) (rev (a # b # bs)) None"
    using ab by (simp add: path_append)
  have 4: "dll ?s (a # as)" using 2 3 d a Cons by (simp add: dll_def)
  have 5: "tile_at (store ?s) x = tile_at (store s) x" for x
    using n nb by (simp add: tile_at_def)
  show ?thesis using 1 4 5 Cons by simp
qed

lemma attachBack_dll:
  assumes dll: "dll s as" and a: "a \<notin> set as" and n: "store s a = Some n"
    and e: "as = [] \<Longrightarrow> prev n = None"
  shows "\<exists>s'. attachBack (Some a) s = Some s' \<and> dll s' (as @ [a])
           \<and> (\<forall>x. x \<notin> set (a # as) \<longrightarrow> store s' x = store s x)
           \<and> (\<forall>x. tile_at (store s') x = tile_at (store s) x)"
proof (cases as rule: rev_cases)
  case Nil
  have f: "front s = None" using dll_front [OF dll] Nil by simp
  let ?s = "s\<lparr>store := (store s)(a \<mapsto> n\<lparr>next := None\<rparr>), front := Some a, back := Some a\<rparr>"
  have 1: "attachBack (Some a) s = Some ?s"
    using f n by (simp add: attachBack_def assign_def)
  have 2: "dll ?s (as @ [a])" using Nil e by (simp add: dll_def)
  have 3: "tile_at (store ?s) x = tile_at (store s) x" for x
    using n by (simp add: tile_at_def)
  show ?thesis using 1 2 3 by simp
next
  case (snoc bs b)
  let ?h = "store s"
  have "front s \<noteq> None" using dll_front [OF dll] snoc by (cases bs) auto
  then obtain a0 where f: "front s = Some a0" by auto
  have bk: "back s = Some b" using dll_back [OF dll] snoc by simp
  have d: "distinct (bs @ [b])" and pn: "path next ?h (front s) (bs @ [b]) None"
    and pp: "path prev ?h (Some b) (b # rev bs) None"
    using dll bk snoc by (simp_all add: dll_def)
  from pn obtain nb where nb: "?h b = Some nb" "next nb = None"
    and pn': "path next ?h (front s) bs (Some b)"
    by (auto simp: path_snoc)
  have ab: "a \<noteq> b" using a snoc by simp
  let ?h3 = "(?h(a \<mapsto> n\<lparr>next := None, prev := Some b\<rparr>))(b \<mapsto> nb\<lparr>next := Some a\<rparr>)"
  let ?s = "s\<lparr>store := ?h3, back := Some a\<rparr>"
  have 1: "attachBack (Some a) s = Some ?s"
    using f bk n nb ab by (simp add: attachBack_def assign_def)
  have "path prev ?h3 (Some b) (b # rev bs) None"
  proof (rule path_frame [OF pp])
    fix x assume "x \<in> set (b # rev bs)"
    then have "x \<noteq> a" using a snoc by auto
    then show "map_option prev (?h3 x) = map_option prev (?h x)"
      using nb by simp
  qed
  then have 2: "path prev ?h3 (Some a) (rev (bs @ [b, a])) None"
    using ab by simp
  have "path next ?h3 (front s) bs (Some b)"
  proof (rule path_frame [OF pn'])
    fix x assume "x \<in> set bs"
    then have "x \<noteq> a" "x \<noteq> b" using a snoc d by auto
    then show "map_option next (?h3 x) = map_option next (?h x)"
      by simp
  qed
  then have 3: "path next ?h3 (front s) (bs @ [b, a]) None"
    using ab by (simp add: path_append)
  have 4: "dll ?s (as @ [a])" using 2 3 d a snoc by (simp add: dll_def)
  have 5: "tile_at (store ?s) x = tile_at (store s) x" for x
    using n nb by (simp add: tile_at_def)
  show ?thesis using 1 4 5 snoc by simp
qed

section \<open>The operations on a well-formed list\<close>

lemma findTile_dll:
  "dll s as \<Longrightarrow> findTile px py s = Some (find (covers (store s) px py) as)"
  by (simp add: findTile_def dll_def findTile_loop_path)

lemma find_None_iff2: "find P xs = None \<longleftrightarrow> (\<forall>x\<in>set xs. \<not> P x)"
  by (induction xs) auto

lemma find_Some_split:
  "find P xs = Some a \<longleftrightarrow> (\<exists>bs cs. xs = bs @ a # cs \<and> P a \<and> (\<forall>b\<in>set bs. \<not> P b))"
proof (induction xs)
  case Nil
  then show ?case by simp
next
  case (Cons x xs)
  show ?case
  proof (cases "P x")
    case True
    have "(\<exists>bs cs. x # xs = bs @ a # cs \<and> P a \<and> (\<forall>b\<in>set bs. \<not> P b)) \<longleftrightarrow> a = x"
    proof
      assume "\<exists>bs cs. x # xs = bs @ a # cs \<and> P a \<and> (\<forall>b\<in>set bs. \<not> P b)"
      then obtain bs cs where 1: "x # xs = bs @ a # cs" "\<forall>b\<in>set bs. \<not> P b" by blast
      then show "a = x" using True by (cases bs) auto
    next
      assume "a = x"
      then have "x # xs = [] @ a # xs \<and> P a \<and> (\<forall>b\<in>set []. \<not> P b)" using True by simp
      then show "\<exists>bs cs. x # xs = bs @ a # cs \<and> P a \<and> (\<forall>b\<in>set bs. \<not> P b)" by blast
    qed
    then show ?thesis using True by auto
  next
    case False
    have "(\<exists>bs cs. x # xs = bs @ a # cs \<and> P a \<and> (\<forall>b\<in>set bs. \<not> P b))
          \<longleftrightarrow> (\<exists>bs cs. xs = bs @ a # cs \<and> P a \<and> (\<forall>b\<in>set bs. \<not> P b))"
    proof
      assume "\<exists>bs cs. x # xs = bs @ a # cs \<and> P a \<and> (\<forall>b\<in>set bs. \<not> P b)"
      then obtain bs cs where 1: "x # xs = bs @ a # cs" "P a" "\<forall>b\<in>set bs. \<not> P b" by blast
      then obtain bs' where "bs = x # bs'" using False by (cases bs) auto
      then have "xs = bs' @ a # cs \<and> P a \<and> (\<forall>b\<in>set bs'. \<not> P b)" using 1 by simp
      then show "\<exists>bs cs. xs = bs @ a # cs \<and> P a \<and> (\<forall>b\<in>set bs. \<not> P b)" by blast
    next
      assume "\<exists>bs cs. xs = bs @ a # cs \<and> P a \<and> (\<forall>b\<in>set bs. \<not> P b)"
      then obtain bs cs where 1: "xs = bs @ a # cs" "P a" "\<forall>b\<in>set bs. \<not> P b" by blast
      then have "x # xs = (x # bs) @ a # cs \<and> P a \<and> (\<forall>b\<in>set (x # bs). \<not> P b)"
        using False by simp
      then show "\<exists>bs cs. x # xs = bs @ a # cs \<and> P a \<and> (\<forall>b\<in>set bs. \<not> P b)" by blast
    qed
    then show ?thesis using False Cons.IH by simp
  qed
qed

lemma covers_tile_at:
  "tile_at h' x = tile_at h x \<Longrightarrow> covers h' px py x = covers h px py x"
  by (cases "h x"; cases "h' x")
     (auto simp: tile_at_def covers_def contains_def tile_of_def)

lemma dll_live: "dll s as \<Longrightarrow> a \<in> set as \<Longrightarrow> \<exists>n. store s a = Some n"
  unfolding dll_def using path_live by blast

lemma dll_unique: "dll s as \<Longrightarrow> dll s bs \<Longrightarrow> as = bs"
  unfolding dll_def using path_unique by blast

lemma dll_Nil: "dll s [] \<longleftrightarrow> front s = None \<and> back s = None"
  by (auto simp: dll_def)

lemma dll_frame:
  assumes "dll s as" "front s' = front s" "back s' = back s"
    "\<And>x. x \<in> set as \<Longrightarrow> map_option next (store s' x) = map_option next (store s x)"
    "\<And>x. x \<in> set as \<Longrightarrow> map_option prev (store s' x) = map_option prev (store s x)"
  shows "dll s' as"
  using assms unfolding dll_def
  by (auto intro: path_frame)

lemma remove1_split: "a \<notin> set bs \<Longrightarrow> remove1 a (bs @ a # cs) = bs @ cs"
  by (induction bs) auto

lemma raise_dll:
  assumes dll: "dll s as"
  shows "\<exists>s' r. raise px py s = Some (s', r) \<and>
           (case find (covers (store s) px py) as of
              None \<Rightarrow> \<not> r \<and> s' = s
            | Some a \<Rightarrow>
                if a = hd as then \<not> r \<and> s' = s
                else r \<and> dll s' (a # remove1 a as)
                  \<and> (\<forall>x. tile_at (store s') x = tile_at (store s) x)
                  \<and> (\<forall>x. x \<notin> set as \<longrightarrow> store s' x = store s x))"
proof (cases "find (covers (store s) px py) as")
  case None
  then show ?thesis using findTile_dll [OF dll, of px py] by (auto simp: raise_def)
next
  case (Some a)
  then obtain bs cs where as: "as = bs @ a # cs" by (auto simp: find_Some_split)
  have f: "front s = Some (hd as)" using dll_front [OF dll] as by (cases bs) auto
  show ?thesis
  proof (cases "a = hd as")
    case True
    then show ?thesis using findTile_dll [OF dll, of px py] Some f by (auto simp: raise_def)
  next
    case False
    have dll': "dll s (bs @ a # cs)" using dll as by simp
    have d: "distinct (bs @ a # cs)" using dll' by (simp add: dll_def)
    obtain s1 where 1: "detachTile (Some a) s = Some s1" "dll s1 (bs @ cs)"
      "\<And>x. x \<notin> set (bs @ cs) \<Longrightarrow> store s1 x = store s x"
      "\<And>x. tile_at (store s1) x = tile_at (store s) x"
      using detachTile_dll [OF dll'] by blast
    have a: "a \<notin> set (bs @ cs)" using d by auto
    obtain n where n: "store s a = Some n" using dll_live [OF dll, of a] as by auto
    have n1: "store s1 a = Some n" using 1(3) [OF a] n by simp
    have ne: "bs @ cs \<noteq> []" using False as by (cases bs) auto
    have e: "bs @ cs = [] \<Longrightarrow> next n = None" using ne by simp
    obtain s2 where 2: "attachFront (Some a) s1 = Some s2" "dll s2 (a # bs @ cs)"
      "\<And>x. x \<notin> set (a # bs @ cs) \<Longrightarrow> store s2 x = store s1 x"
      "\<And>x. tile_at (store s2) x = tile_at (store s1) x"
      using attachFront_dll [OF 1(2) a n1 e] by blast
    have r: "raise px py s = Some (s2, True)"
      using findTile_dll [OF dll, of px py] Some f False 1(1) 2(1) by (simp add: raise_def)
    have rm: "remove1 a as = bs @ cs" using as d by (simp add: remove1_split)
    have 3: "store s2 x = store s x" if "x \<notin> set as" for x
      using that 1(3) [of x] 2(3) [of x] as by simp
    show ?thesis using r Some False 2(2) rm 1(4) 2(4) 3 by auto
  qed
qed

lemma lower_dll:
  assumes dll: "dll s as"
  shows "\<exists>s' r. lower px py s = Some (s', r) \<and>
           (case find (covers (store s) px py) as of
              None \<Rightarrow> \<not> r \<and> s' = s
            | Some a \<Rightarrow>
                if a = last as then \<not> r \<and> s' = s
                else r \<and> dll s' (remove1 a as @ [a])
                  \<and> (\<forall>x. tile_at (store s') x = tile_at (store s) x)
                  \<and> (\<forall>x. x \<notin> set as \<longrightarrow> store s' x = store s x))"
proof (cases "find (covers (store s) px py) as")
  case None
  then show ?thesis using findTile_dll [OF dll, of px py] by (auto simp: lower_def)
next
  case (Some a)
  then obtain bs cs where as: "as = bs @ a # cs" by (auto simp: find_Some_split)
  have f: "back s = Some (last as)" using dll_back [OF dll] as by simp
  show ?thesis
  proof (cases "a = last as")
    case True
    then show ?thesis using findTile_dll [OF dll, of px py] Some f by (auto simp: lower_def)
  next
    case False
    have dll': "dll s (bs @ a # cs)" using dll as by simp
    have d: "distinct (bs @ a # cs)" using dll' by (simp add: dll_def)
    obtain s1 where 1: "detachTile (Some a) s = Some s1" "dll s1 (bs @ cs)"
      "\<And>x. x \<notin> set (bs @ cs) \<Longrightarrow> store s1 x = store s x"
      "\<And>x. tile_at (store s1) x = tile_at (store s) x"
      using detachTile_dll [OF dll'] by blast
    have a: "a \<notin> set (bs @ cs)" using d by auto
    obtain n where n: "store s a = Some n" using dll_live [OF dll, of a] as by auto
    have n1: "store s1 a = Some n" using 1(3) [OF a] n by simp
    have ne: "bs @ cs \<noteq> []" using False as by (cases cs) auto
    have e: "bs @ cs = [] \<Longrightarrow> prev n = None" using ne by simp
    obtain s2 where 2: "attachBack (Some a) s1 = Some s2" "dll s2 ((bs @ cs) @ [a])"
      "\<And>x. x \<notin> set (a # bs @ cs) \<Longrightarrow> store s2 x = store s1 x"
      "\<And>x. tile_at (store s2) x = tile_at (store s1) x"
      using attachBack_dll [OF 1(2) a n1 e] by blast
    have r: "lower px py s = Some (s2, True)"
      using findTile_dll [OF dll, of px py] Some f False 1(1) 2(1) by (simp add: lower_def)
    have rm: "remove1 a as = bs @ cs" using as d by (simp add: remove1_split)
    have 3: "store s2 x = store s x" if "x \<notin> set as" for x
      using that 1(3) [of x] 2(3) [of x] as by simp
    show ?thesis using r Some False 2(2) rm 1(4) 2(4) 3 by auto
  qed
qed

lemma detach_delete_dll:
  assumes dll: "dll s (bs @ a # cs)"
  shows "\<exists>s1 t. detachTile (Some a) s = Some s1 \<and> store s1 a = Some t \<and> store s a = Some t
    \<and> delete_node (Some a) (store s1) = Some ((store s1)(a := None))
    \<and> dll (s1\<lparr>store := (store s1)(a := None)\<rparr>) (bs @ cs)
    \<and> (\<forall>x. x \<notin> set (bs @ cs) \<longrightarrow> store s1 x = store s x)
    \<and> (\<forall>x. tile_at (store s1) x = tile_at (store s) x)"
proof -
  have d: "distinct (bs @ a # cs)" using dll by (simp add: dll_def)
  obtain s1 where 1: "detachTile (Some a) s = Some s1" "dll s1 (bs @ cs)"
    "\<And>x. x \<notin> set (bs @ cs) \<Longrightarrow> store s1 x = store s x"
    "\<And>x. tile_at (store s1) x = tile_at (store s) x"
    using detachTile_dll [OF dll] by blast
  have a: "a \<notin> set (bs @ cs)" using d by auto
  obtain t where t: "store s a = Some t" using dll_live [OF dll, of a] by auto
  have t1: "store s1 a = Some t" using 1(3) [OF a] t by simp
  have 2: "delete_node (Some a) (store s1) = Some ((store s1)(a := None))"
    using t1 by (simp add: delete_node_def)
  have 3: "dll (s1\<lparr>store := (store s1)(a := None)\<rparr>) (bs @ cs)"
    by (rule dll_frame [OF 1(2)]) (use a in auto)
  show ?thesis using 1(1) t1 t 2 3 1(3,4) by blast
qed

lemma remove_dll:
  assumes dll: "dll s as"
  shows "\<exists>s' r. remove px py s = Some (s', r) \<and>
           (case find (covers (store s) px py) as of
              None \<Rightarrow> \<not> r \<and> s' = s
            | Some a \<Rightarrow>
                r \<and> dll s' (remove1 a as) \<and> store s' a = None
                  \<and> (\<forall>x. x \<noteq> a \<longrightarrow> tile_at (store s') x = tile_at (store s) x)
                  \<and> (\<forall>x. x \<notin> set as \<longrightarrow> store s' x = store s x))"
proof (cases "find (covers (store s) px py) as")
  case None
  then show ?thesis using findTile_dll [OF dll, of px py] by (auto simp: remove_def)
next
  case (Some a)
  then obtain bs cs where as: "as = bs @ a # cs" by (auto simp: find_Some_split)
  have dll': "dll s (bs @ a # cs)" using dll as by simp
  have d: "distinct (bs @ a # cs)" using dll' by (simp add: dll_def)
  obtain s1 where 1: "detachTile (Some a) s = Some s1"
    "delete_node (Some a) (store s1) = Some ((store s1)(a := None))"
    "dll (s1\<lparr>store := (store s1)(a := None)\<rparr>) (bs @ cs)"
    "\<And>x. x \<notin> set (bs @ cs) \<Longrightarrow> store s1 x = store s x"
    "\<And>x. tile_at (store s1) x = tile_at (store s) x"
    using detach_delete_dll [OF dll'] by blast
  let ?s = "s1\<lparr>store := (store s1)(a := None)\<rparr>"
  have r: "remove px py s = Some (?s, True)"
    using findTile_dll [OF dll, of px py] Some 1(1,2) by (simp add: remove_def)
  have rm: "remove1 a as = bs @ cs" using as d by (simp add: remove1_split)
  have 3: "store ?s x = store s x" if "x \<notin> set as" for x
    using that 1(4) [of x] as by simp
  have 4: "tile_at (store ?s) x = tile_at (store s) x" if "x \<noteq> a" for x
    using that 1(5) [of x] by (simp add: tile_at_def)
  show ?thesis using r Some 1(3) rm 3 4 by auto
qed

lemma highlight_dll:
  assumes dll: "dll s as"
  shows "\<exists>s' r. highlight px py s = Some (s', r) \<and>
           (case find (covers (store s) px py) as of
              None \<Rightarrow> \<not> r \<and> s' = s
            | Some a \<Rightarrow>
                r \<and> (\<exists>n. store s a = Some n
                        \<and> s' = s\<lparr>store := (store s)(a \<mapsto> n\<lparr>color := ''yellow''\<rparr>)\<rparr>))"
proof (cases "find (covers (store s) px py) as")
  case None
  then show ?thesis using findTile_dll [OF dll, of px py] by (auto simp: highlight_def)
next
  case (Some a)
  then have "a \<in> set as" by (auto simp: find_Some_split)
  then obtain n where n: "store s a = Some n" using dll_live [OF dll] by blast
  show ?thesis using findTile_dll [OF dll, of px py] Some n
    by (auto simp: highlight_def assign_def)
qed

lemma dll_color:
  assumes "dll s as" "store s a = Some n"
  shows "dll (s\<lparr>store := (store s)(a \<mapsto> n\<lparr>color := c\<rparr>)\<rparr>) as"
  by (rule dll_frame [OF assms(1)]) (use assms(2) in auto)

lemma dll_new:
  assumes "dll s as" "store s a = None"
  shows "dll (s\<lparr>store := (store s)(a \<mapsto> n)\<rparr>) as \<and> a \<notin> set as"
proof -
  have a: "a \<notin> set as" using dll_live [OF assms(1), of a] assms(2) by auto
  have "dll (s\<lparr>store := (store s)(a \<mapsto> n)\<rparr>) as"
    by (rule dll_frame [OF assms(1)]) (use a in auto)
  then show ?thesis using a by simp
qed

lemma addFront_dll:
  assumes dll: "dll s as" and a: "store s a = None"
  shows "\<exists>s'. addFront a px py w h c s = Some s' \<and> dll s' (a # as)
           \<and> tile_at (store s') a = Some (px, py, w, h, c)
           \<and> (\<forall>x. x \<noteq> a \<longrightarrow> tile_at (store s') x = tile_at (store s) x)
           \<and> (\<forall>x. x \<notin> set (a # as) \<longrightarrow> store s' x = store s x)"
proof -
  let ?n = "\<lparr>tx = px, ty = py, width = w, height = h, color = c, prev = None, next = None\<rparr>"
  let ?s0 = "s\<lparr>store := (store s)(a \<mapsto> ?n)\<rparr>"
  have 0: "dll ?s0 as" "a \<notin> set as" using dll_new [OF dll a] by simp_all
  have n: "store ?s0 a = Some ?n" by simp
  obtain s' where 1: "attachFront (Some a) ?s0 = Some s'" "dll s' (a # as)"
    "\<And>x. x \<notin> set (a # as) \<Longrightarrow> store s' x = store ?s0 x"
    "\<And>x. tile_at (store s') x = tile_at (store ?s0) x"
    using attachFront_dll [OF 0 n] by auto
  have 2: "addFront a px py w h c s = Some s'"
    using a 1(1) by (simp add: addFront_def new_TileNode_def)
  have 3: "tile_at (store s') a = Some (px, py, w, h, c)"
    using 1(4) [of a] by (simp add: tile_at_def tile_of_def)
  have 4: "tile_at (store s') x = tile_at (store s) x" if "x \<noteq> a" for x
    using 1(4) [of x] that by (simp add: tile_at_def)
  have 5: "store s' x = store s x" if "x \<notin> set (a # as)" for x
    using 1(3) [OF that] that by simp
  show ?thesis using 1(2) 2 3 4 5 by blast
qed

lemma addBack_dll:
  assumes dll: "dll s as" and a: "store s a = None"
  shows "\<exists>s'. addBack a px py w h c s = Some s' \<and> dll s' (as @ [a])
           \<and> tile_at (store s') a = Some (px, py, w, h, c)
           \<and> (\<forall>x. x \<noteq> a \<longrightarrow> tile_at (store s') x = tile_at (store s) x)
           \<and> (\<forall>x. x \<notin> set (a # as) \<longrightarrow> store s' x = store s x)"
proof -
  let ?n = "\<lparr>tx = px, ty = py, width = w, height = h, color = c, prev = None, next = None\<rparr>"
  let ?s0 = "s\<lparr>store := (store s)(a \<mapsto> ?n)\<rparr>"
  have 0: "dll ?s0 as" "a \<notin> set as" using dll_new [OF dll a] by simp_all
  have n: "store ?s0 a = Some ?n" by simp
  obtain s' where 1: "attachBack (Some a) ?s0 = Some s'" "dll s' (as @ [a])"
    "\<And>x. x \<notin> set (a # as) \<Longrightarrow> store s' x = store ?s0 x"
    "\<And>x. tile_at (store s') x = tile_at (store ?s0) x"
    using attachBack_dll [OF 0 n] by auto
  have 2: "addBack a px py w h c s = Some s'"
    using a 1(1) by (simp add: addBack_def new_TileNode_def)
  have 3: "tile_at (store s') a = Some (px, py, w, h, c)"
    using 1(4) [of a] by (simp add: tile_at_def tile_of_def)
  have 4: "tile_at (store s') x = tile_at (store s) x" if "x \<noteq> a" for x
    using 1(4) [of x] that by (simp add: tile_at_def)
  have 5: "store s' x = store s x" if "x \<notin> set (a # as)" for x
    using 1(3) [OF that] that by simp
  show ?thesis using 1(2) 2 3 4 5 by blast
qed

lemma covers_filter_cong:
  assumes "\<And>x. x \<in> set xs \<Longrightarrow> tile_at h' x = tile_at h x"
  shows "filter (covers h' px py) xs = filter (covers h px py) xs"
    and "filter (\<lambda>x. \<not> covers h' px py x) xs = filter (\<lambda>x. \<not> covers h px py x) xs"
    and "find (covers h' px py) xs = find (covers h px py) xs"
proof -
  have c: "covers h' px py x = covers h px py x" if "x \<in> set xs" for x
    using assms [OF that] by (rule covers_tile_at)
  show "filter (covers h' px py) xs = filter (covers h px py) xs"
    using c by (intro filter_cong) auto
  show "filter (\<lambda>x. \<not> covers h' px py x) xs = filter (\<lambda>x. \<not> covers h px py x) xs"
    using c by (intro filter_cong) auto
  show "find (covers h' px py) xs = find (covers h px py) xs"
    using c by (intro find_cong) auto
qed

lemma tile_at_delete: "tile_at (h(a := None)) x = (if x = a then None else tile_at h x)"
  by (simp add: tile_at_def)

lemma removeAll_loop_dll:
  assumes "dll s as"
  shows "\<exists>s'. removeAll_loop px py s k
             = Some (s', k + of_nat (length (filter (covers (store s) px py) as)))
           \<and> dll s' (filter (\<lambda>x. \<not> covers (store s) px py x) as)
           \<and> (\<forall>x. x \<in> set as \<and> covers (store s) px py x \<longrightarrow> store s' x = None)
           \<and> (\<forall>x. \<not> (x \<in> set as \<and> covers (store s) px py x)
                  \<longrightarrow> tile_at (store s') x = tile_at (store s) x)
           \<and> (\<forall>x. x \<notin> set as \<longrightarrow> store s' x = store s x)"
  using assms
proof (induction "length as" arbitrary: s as k rule: less_induct)
  case less
  let ?C = "covers (store s) px py"
  show ?case
  proof (cases "find ?C as")
    case None
    then have n: "\<forall>x\<in>set as. \<not> ?C x" by (simp add: find_None_iff2)
    then have f: "filter ?C as = []" "filter (\<lambda>x. \<not> ?C x) as = as"
      by (simp_all add: filter_empty_conv filter_id_conv)
    have "removeAll_loop px py s k = Some (s, k)"
      using findTile_dll [OF less.prems, of px py] None
      by (subst removeAll_loop.simps) simp
    then show ?thesis using f less.prems n by auto
  next
    case (Some a)
    then obtain bs cs where as: "as = bs @ a # cs" and ca: "?C a" and nb: "\<forall>b\<in>set bs. \<not> ?C b"
      by (auto simp: find_Some_split)
    have dll': "dll s (bs @ a # cs)" using less.prems as by simp
    have d: "distinct (bs @ a # cs)" using dll' by (simp add: dll_def)
    obtain s1 where 1: "detachTile (Some a) s = Some s1"
      "delete_node (Some a) (store s1) = Some ((store s1)(a := None))"
      "dll (s1\<lparr>store := (store s1)(a := None)\<rparr>) (bs @ cs)"
      "\<And>x. x \<notin> set (bs @ cs) \<Longrightarrow> store s1 x = store s x"
      "\<And>x. tile_at (store s1) x = tile_at (store s) x"
      using detach_delete_dll [OF dll'] by blast
    let ?s2 = "s1\<lparr>store := (store s1)(a := None)\<rparr>"
    let ?C2 = "covers (store ?s2) px py"
    have a: "a \<notin> set (bs @ cs)" using d by auto
    have t2: "tile_at (store ?s2) x = tile_at (store s) x" if "x \<noteq> a" for x
      using that 1(5) [of x] by (simp add: tile_at_delete)
    have t2': "tile_at (store ?s2) x = tile_at (store s) x" if "x \<in> set (bs @ cs)" for x
      using that a t2 [of x] by auto
    have c2: "?C2 x = ?C x" if "x \<noteq> a" for x
      using t2 [OF that] by (rule covers_tile_at)
    have step: "removeAll_loop px py s k = removeAll_loop px py ?s2 (k + 1)"
      using findTile_dll [OF less.prems, of px py] Some 1(1,2)
      by (subst removeAll_loop.simps) simp
    have len: "length (bs @ cs) < length as" using as by simp
    from less.hyps [OF len 1(3), of "k + 1"] obtain s' where ih:
      "removeAll_loop px py ?s2 (k + 1)
         = Some (s', k + 1 + of_nat (length (filter ?C2 (bs @ cs))))
       \<and> dll s' (filter (\<lambda>x. \<not> ?C2 x) (bs @ cs))
       \<and> (\<forall>x. x \<in> set (bs @ cs) \<and> ?C2 x \<longrightarrow> store s' x = None)
       \<and> (\<forall>x. \<not> (x \<in> set (bs @ cs) \<and> ?C2 x)
              \<longrightarrow> tile_at (store s') x = tile_at (store ?s2) x)
       \<and> (\<forall>x. x \<notin> set (bs @ cs) \<longrightarrow> store s' x = store ?s2 x)" ..
    have 2: "removeAll_loop px py ?s2 (k + 1)
         = Some (s', k + 1 + of_nat (length (filter ?C2 (bs @ cs))))"
      "dll s' (filter (\<lambda>x. \<not> ?C2 x) (bs @ cs))"
      "\<And>x. x \<in> set (bs @ cs) \<and> ?C2 x \<Longrightarrow> store s' x = None"
      "\<And>x. \<not> (x \<in> set (bs @ cs) \<and> ?C2 x) \<Longrightarrow> tile_at (store s') x = tile_at (store ?s2) x"
      "\<And>x. x \<notin> set (bs @ cs) \<Longrightarrow> store s' x = store ?s2 x"
      using ih by blast+
    have f1: "filter ?C2 (bs @ cs) = filter ?C (bs @ cs)"
      and f2: "filter (\<lambda>x. \<not> ?C2 x) (bs @ cs) = filter (\<lambda>x. \<not> ?C x) (bs @ cs)"
      using covers_filter_cong [of "bs @ cs" "store ?s2" "store s" px py] t2' by blast+
    have cnt: "k + 1 + of_nat (length (filter ?C (bs @ cs)))
                 = k + of_nat (length (filter ?C as))"
      using as ca by simp
    have r1: "removeAll_loop px py s k = Some (s', k + of_nat (length (filter ?C as)))"
      by (simp only: step 2(1) f1 cnt)
    have r2: "dll s' (filter (\<lambda>x. \<not> ?C x) as)"
      using 2(2) f2 as ca by simp
    have r3: "store s' x = None" if "x \<in> set as \<and> ?C x" for x
    proof (cases "x = a")
      case True
      then show ?thesis using 2(5) [of a] a by simp
    next
      case False
      then show ?thesis using that 2(3) [of x] c2 [of x] as by auto
    qed
    have r4: "tile_at (store s') x = tile_at (store s) x" if "\<not> (x \<in> set as \<and> ?C x)" for x
    proof -
      have xa: "x \<noteq> a" using that as ca by auto
      then have "\<not> (x \<in> set (bs @ cs) \<and> ?C2 x)" using that c2 [of x] as by auto
      then show ?thesis using 2(4) [of x] t2 [OF xa] by simp
    qed
    have r5: "store s' x = store s x" if "x \<notin> set as" for x
    proof -
      have "x \<noteq> a" "x \<notin> set (bs @ cs)" using that as by auto
      then show ?thesis using 2(5) [of x] 1(4) [of x] by simp
    qed
    show ?thesis
      by (rule exI [of _ s']) (use r1 r2 r3 r4 r5 in simp)
  qed
qed

lemma grow_tile: "tile_of n' = tile_of n \<Longrightarrow> grow n' b = grow n b"
  by (simp add: grow_def tile_of_def)

lemma grow_all_cong:
  "(\<And>x. x \<in> set xs \<Longrightarrow> tile_at h' x = tile_at h x) \<Longrightarrow> grow_all h' xs b = grow_all h xs b"
proof (induction xs arbitrary: b)
  case Nil
  then show ?case by simp
next
  case (Cons x xs)
  have "tile_at h' x = tile_at h x" using Cons.prems by simp
  then have "(case h' x of None \<Rightarrow> b | Some n \<Rightarrow> grow n b) = (case h x of None \<Rightarrow> b | Some n \<Rightarrow> grow n b)"
    by (cases "h x"; cases "h' x") (auto simp: tile_at_def intro: grow_tile)
  moreover have "grow_all h' xs c = grow_all h xs c" for c
    using Cons.IH Cons.prems by simp
  ultimately show ?case by simp
qed

lemma merge_loop_dll:
  assumes "dll s as"
  shows "\<exists>s'. merge_loop px py (find (covers (store s) px py) as) s b
             = Some (s', grow_all (store s) (filter (covers (store s) px py) as) b)
           \<and> dll s' (filter (\<lambda>x. \<not> covers (store s) px py x) as)
           \<and> (\<forall>x. x \<in> set as \<and> covers (store s) px py x \<longrightarrow> store s' x = None)
           \<and> (\<forall>x. \<not> (x \<in> set as \<and> covers (store s) px py x)
                  \<longrightarrow> tile_at (store s') x = tile_at (store s) x)
           \<and> (\<forall>x. x \<notin> set as \<longrightarrow> store s' x = store s x)"
  using assms
proof (induction "length as" arbitrary: s as b rule: less_induct)
  case less
  let ?C = "covers (store s) px py"
  show ?case
  proof (cases "find ?C as")
    case None
    then have n: "\<forall>x\<in>set as. \<not> ?C x" by (simp add: find_None_iff2)
    then have f: "filter ?C as = []" "filter (\<lambda>x. \<not> ?C x) as = as"
      by (simp_all add: filter_empty_conv filter_id_conv)
    have "merge_loop px py (find ?C as) s b = Some (s, b)"
      unfolding None by (subst merge_loop.simps) simp
    then show ?thesis using f less.prems n by auto
  next
    case (Some a)
    then obtain bs cs where as: "as = bs @ a # cs" and ca: "?C a" and nb: "\<forall>b\<in>set bs. \<not> ?C b"
      by (auto simp: find_Some_split)
    have dll': "dll s (bs @ a # cs)" using less.prems as by simp
    have d: "distinct (bs @ a # cs)" using dll' by (simp add: dll_def)
    obtain s1 t where 1: "detachTile (Some a) s = Some s1"
      "delete_node (Some a) (store s1) = Some ((store s1)(a := None))"
      "dll (s1\<lparr>store := (store s1)(a := None)\<rparr>) (bs @ cs)"
      "\<And>x. x \<notin> set (bs @ cs) \<Longrightarrow> store s1 x = store s x"
      "\<And>x. tile_at (store s1) x = tile_at (store s) x"
      and t: "store s1 a = Some t" "store s a = Some t"
      using detach_delete_dll [OF dll'] by blast
    let ?s2 = "s1\<lparr>store := (store s1)(a := None)\<rparr>"
    let ?C2 = "covers (store ?s2) px py"
    have a: "a \<notin> set (bs @ cs)" using d by auto
    have t2: "tile_at (store ?s2) x = tile_at (store s) x" if "x \<noteq> a" for x
      using that 1(5) [of x] by (simp add: tile_at_delete)
    have t2': "tile_at (store ?s2) x = tile_at (store s) x" if "x \<in> set (bs @ cs)" for x
      using that a t2 [of x] by auto
    have c2: "?C2 x = ?C x" if "x \<noteq> a" for x
      using t2 [OF that] by (rule covers_tile_at)
    have step: "merge_loop px py (find ?C as) s b
                  = merge_loop px py (find ?C2 (bs @ cs)) ?s2 (grow t b)"
      unfolding Some using findTile_dll [OF 1(3), of px py] 1(1,2) t(1)
      by (subst merge_loop.simps) (simp add: deref_def)
    have len: "length (bs @ cs) < length as" using as by simp
    from less.hyps [OF len 1(3), of "grow t b"] obtain s' where ih:
      "merge_loop px py (find ?C2 (bs @ cs)) ?s2 (grow t b)
         = Some (s', grow_all (store ?s2) (filter ?C2 (bs @ cs)) (grow t b))
       \<and> dll s' (filter (\<lambda>x. \<not> ?C2 x) (bs @ cs))
       \<and> (\<forall>x. x \<in> set (bs @ cs) \<and> ?C2 x \<longrightarrow> store s' x = None)
       \<and> (\<forall>x. \<not> (x \<in> set (bs @ cs) \<and> ?C2 x)
              \<longrightarrow> tile_at (store s') x = tile_at (store ?s2) x)
       \<and> (\<forall>x. x \<notin> set (bs @ cs) \<longrightarrow> store s' x = store ?s2 x)" ..
    have 2: "merge_loop px py (find ?C2 (bs @ cs)) ?s2 (grow t b)
         = Some (s', grow_all (store ?s2) (filter ?C2 (bs @ cs)) (grow t b))"
      "dll s' (filter (\<lambda>x. \<not> ?C2 x) (bs @ cs))"
      "\<And>x. x \<in> set (bs @ cs) \<and> ?C2 x \<Longrightarrow> store s' x = None"
      "\<And>x. \<not> (x \<in> set (bs @ cs) \<and> ?C2 x) \<Longrightarrow> tile_at (store s') x = tile_at (store ?s2) x"
      "\<And>x. x \<notin> set (bs @ cs) \<Longrightarrow> store s' x = store ?s2 x"
      using ih by blast+
    have f1: "filter ?C2 (bs @ cs) = filter ?C (bs @ cs)"
      and f2: "filter (\<lambda>x. \<not> ?C2 x) (bs @ cs) = filter (\<lambda>x. \<not> ?C x) (bs @ cs)"
      using covers_filter_cong [of "bs @ cs" "store ?s2" "store s" px py] t2' by blast+
    have fb: "filter ?C bs = []" using nb by (simp add: filter_empty_conv)
    have g1: "grow_all (store ?s2) (filter ?C (bs @ cs)) (grow t b)
                = grow_all (store s) (filter ?C (bs @ cs)) (grow t b)"
      by (rule grow_all_cong) (use t2' in auto)
    have g2: "grow_all (store s) (filter ?C as) b
                = grow_all (store s) (filter ?C (bs @ cs)) (grow t b)"
      using as ca fb t(2) by simp
    have r1: "merge_loop px py (find ?C as) s b
                = Some (s', grow_all (store s) (filter ?C as) b)"
      by (simp only: step 2(1) f1 g1 g2)
    have r2: "dll s' (filter (\<lambda>x. \<not> ?C x) as)"
      using 2(2) f2 as ca by simp
    have r3: "store s' x = None" if "x \<in> set as \<and> ?C x" for x
    proof (cases "x = a")
      case True
      then show ?thesis using 2(5) [of a] a by simp
    next
      case False
      then show ?thesis using that 2(3) [of x] c2 [of x] as by auto
    qed
    have r4: "tile_at (store s') x = tile_at (store s) x" if "\<not> (x \<in> set as \<and> ?C x)" for x
    proof -
      have xa: "x \<noteq> a" using that as ca by auto
      then have "\<not> (x \<in> set (bs @ cs) \<and> ?C2 x)" using that c2 [of x] as by auto
      then show ?thesis using 2(4) [of x] t2 [OF xa] by simp
    qed
    have r5: "store s' x = store s x" if "x \<notin> set as" for x
    proof -
      have "x \<noteq> a" "x \<notin> set (bs @ cs)" using that as by auto
      then show ?thesis using 2(5) [of x] 1(4) [of x] by simp
    qed
    show ?thesis
      by (rule exI [of _ s']) (use r1 r2 r3 r4 r5 in simp)
  qed
qed

lemma grow_proj:
  "minX (grow t b) = (if tx t <s minX b then tx t else minX b)"
  "maxX (grow t b) = (if maxX b <s tx t + width t then tx t + width t else maxX b)"
  "minY (grow t b) = (if ty t <s minY b then ty t else minY b)"
  "maxY (grow t b) = (if maxY b <s ty t + height t then ty t + height t else maxY b)"
  by (simp_all add: grow_def Let_def)

lemma running_min:
  assumes g: "\<And>t b. g (grow t b) = (if e t <s g b then e t else g b)"
  shows "g (grow_all h xs b) \<le>s g b
       \<and> (\<forall>x\<in>set xs. \<forall>t. h x = Some t \<longrightarrow> g (grow_all h xs b) \<le>s e t)
       \<and> (g (grow_all h xs b) = g b
            \<or> (\<exists>x\<in>set xs. \<exists>t. h x = Some t \<and> g (grow_all h xs b) = e t))"
proof (induction xs arbitrary: b)
  case Nil
  then show ?case by simp
next
  case (Cons x xs)
  show ?case
  proof (cases "h x")
    case None
    then show ?thesis using Cons.IH [of b] by auto
  next
    case (Some t)
    let ?r = "g (grow_all h xs (grow t b))"
    have ih: "?r \<le>s g (grow t b)"
      "\<forall>y\<in>set xs. \<forall>u. h y = Some u \<longrightarrow> ?r \<le>s e u"
      "?r = g (grow t b) \<or> (\<exists>y\<in>set xs. \<exists>u. h y = Some u \<and> ?r = e u)"
      using Cons.IH [of "grow t b"] by blast+
    have 1: "g (grow t b) \<le>s g b" "g (grow t b) \<le>s e t"
      "g (grow t b) = g b \<or> g (grow t b) = e t"
      by (auto simp: g word_sle_eq word_sless_alt)
    have a: "?r \<le>s g b" "?r \<le>s e t"
      using ih(1) 1(1,2) by (auto simp: word_sle_eq)
    have b: "?r = g b \<or> (\<exists>y\<in>set (x # xs). \<exists>u. h y = Some u \<and> ?r = e u)"
      using ih(3) 1(3) Some by auto
    show ?thesis using a b ih(2) Some by simp
  qed
qed

lemma running_max:
  assumes g: "\<And>t b. g (grow t b) = (if g b <s e t then e t else g b)"
  shows "g b \<le>s g (grow_all h xs b)
       \<and> (\<forall>x\<in>set xs. \<forall>t. h x = Some t \<longrightarrow> e t \<le>s g (grow_all h xs b))
       \<and> (g (grow_all h xs b) = g b
            \<or> (\<exists>x\<in>set xs. \<exists>t. h x = Some t \<and> g (grow_all h xs b) = e t))"
proof (induction xs arbitrary: b)
  case Nil
  then show ?case by simp
next
  case (Cons x xs)
  show ?case
  proof (cases "h x")
    case None
    then show ?thesis using Cons.IH [of b] by auto
  next
    case (Some t)
    let ?r = "g (grow_all h xs (grow t b))"
    have ih: "g (grow t b) \<le>s ?r"
      "\<forall>y\<in>set xs. \<forall>u. h y = Some u \<longrightarrow> e u \<le>s ?r"
      "?r = g (grow t b) \<or> (\<exists>y\<in>set xs. \<exists>u. h y = Some u \<and> ?r = e u)"
      using Cons.IH [of "grow t b"] by blast+
    have 1: "g b \<le>s g (grow t b)" "e t \<le>s g (grow t b)"
      "g (grow t b) = g b \<or> g (grow t b) = e t"
      by (auto simp: g word_sle_eq word_sless_alt)
    have a: "g b \<le>s ?r" "e t \<le>s ?r"
      using ih(1) 1(1,2) by (auto simp: word_sle_eq)
    have b: "?r = g b \<or> (\<exists>y\<in>set (x # xs). \<exists>u. h y = Some u \<and> ?r = e u)"
      using ih(3) 1(3) Some by auto
    show ?thesis using a b ih(2) Some by simp
  qed
qed

lemma set_matching:
  "set (matching h px py ms) = {t. \<exists>m\<in>set ms. h m = Some t \<and> contains t px py}"
  by (induction ms) (auto split: option.splits)

lemma matching_filter:
  "t \<in> set (matching h px py ms) \<longleftrightarrow> (\<exists>m\<in>set (filter (covers h px py) ms). h m = Some t)"
  by (auto simp: set_matching covers_def)

lemma grow_all_box:
  assumes a0: "a0 \<in> set (filter (covers h px py) ms)" and t0: "h a0 = Some t0"
  defines "b0 \<equiv> \<lparr>minX = tx t0, maxX = tx t0 + width t0, minY = ty t0, maxY = ty t0 + height t0\<rparr>"
  defines "b \<equiv> grow_all h (filter (covers h px py) ms) b0"
  shows "(\<forall>t\<in>set (matching h px py ms). minX b \<le>s tx t \<and> tx t + width t \<le>s maxX b
                 \<and> minY b \<le>s ty t \<and> ty t + height t \<le>s maxY b)
     \<and> (\<exists>t\<in>set (matching h px py ms). minX b = tx t)
     \<and> (\<exists>t\<in>set (matching h px py ms). maxX b = tx t + width t)
     \<and> (\<exists>t\<in>set (matching h px py ms). minY b = ty t)
     \<and> (\<exists>t\<in>set (matching h px py ms). maxY b = ty t + height t)"
proof -
  let ?M = "filter (covers h px py) ms"
  have t0m: "t0 \<in> set (matching h px py ms)" using a0 t0 by (auto simp: matching_filter)
  have 1: "\<forall>x\<in>set ?M. \<forall>t. h x = Some t \<longrightarrow> minX b \<le>s tx t"
    "minX b = minX b0 \<or> (\<exists>x\<in>set ?M. \<exists>t. h x = Some t \<and> minX b = tx t)"
    using running_min [where g = minX and e = tx and h = h and xs = "?M" and b = b0] unfolding b_def by (simp_all add: grow_proj)
  have 2: "\<forall>x\<in>set ?M. \<forall>t. h x = Some t \<longrightarrow> minY b \<le>s ty t"
    "minY b = minY b0 \<or> (\<exists>x\<in>set ?M. \<exists>t. h x = Some t \<and> minY b = ty t)"
    using running_min [where g = minY and e = ty and h = h and xs = "?M" and b = b0] unfolding b_def by (simp_all add: grow_proj)
  have 3: "\<forall>x\<in>set ?M. \<forall>t. h x = Some t \<longrightarrow> tx t + width t \<le>s maxX b"
    "maxX b = maxX b0 \<or> (\<exists>x\<in>set ?M. \<exists>t. h x = Some t \<and> maxX b = tx t + width t)"
    using running_max [where g = maxX and e = "\<lambda>t. tx t + width t" and h = h and xs = "?M" and b = b0] unfolding b_def
    by (simp_all add: grow_proj)
  have 4: "\<forall>x\<in>set ?M. \<forall>t. h x = Some t \<longrightarrow> ty t + height t \<le>s maxY b"
    "maxY b = maxY b0 \<or> (\<exists>x\<in>set ?M. \<exists>t. h x = Some t \<and> maxY b = ty t + height t)"
    using running_max [where g = maxY and e = "\<lambda>t. ty t + height t" and h = h and xs = "?M" and b = b0] unfolding b_def
    by (simp_all add: grow_proj)
  have b0: "minX b0 = tx t0" "maxX b0 = tx t0 + width t0" "minY b0 = ty t0"
    "maxY b0 = ty t0 + height t0"
    by (simp_all add: b0_def)
  have A: "\<forall>t\<in>set (matching h px py ms). minX b \<le>s tx t \<and> tx t + width t \<le>s maxX b
                 \<and> minY b \<le>s ty t \<and> ty t + height t \<le>s maxY b"
    using 1(1) 2(1) 3(1) 4(1) by (auto simp: matching_filter)
  have mem: "t \<in> set (matching h px py ms)" if "x \<in> set ?M" "h x = Some t" for x t
    using that matching_filter [of t h px py ms] by blast
  have B: "\<exists>t\<in>set (matching h px py ms). minX b = tx t"
    using 1(2) b0(1) t0m mem by metis
  have C: "\<exists>t\<in>set (matching h px py ms). maxX b = tx t + width t"
    using 3(2) b0(2) t0m mem by metis
  have D: "\<exists>t\<in>set (matching h px py ms). minY b = ty t"
    using 2(2) b0(3) t0m mem by metis
  have E: "\<exists>t\<in>set (matching h px py ms). maxY b = ty t + height t"
    using 4(2) b0(4) t0m mem by metis
  show ?thesis using A B C D E by blast
qed

lemma merge_none:
  assumes "dll s as" "\<forall>x\<in>set as. \<not> covers (store s) px py x"
  shows "merge a px py s = Some s"
proof -
  have "find (covers (store s) px py) as = None" using assms(2) by (simp add: find_None_iff2)
  then show ?thesis using findTile_dll [OF assms(1), of px py] by (simp add: merge_def)
qed

lemma merge_dll:
  assumes dll: "dll s as" and f: "find (covers (store s) px py) as = Some a0"
    and fresh: "store s a = None \<or> (a \<in> set as \<and> covers (store s) px py a)"
  shows "\<exists>s' n t0. merge a px py s = Some s'
           \<and> dll s' (a # filter (\<lambda>x. \<not> covers (store s) px py x) as)
           \<and> store s a0 = Some t0 \<and> store s' a = Some n \<and> color n = color t0
           \<and> bounding_box n (matching (store s) px py as)
           \<and> (\<forall>x. x \<in> set as \<and> covers (store s) px py x \<and> x \<noteq> a \<longrightarrow> store s' x = None)
           \<and> (\<forall>x. x \<noteq> a \<and> \<not> (x \<in> set as \<and> covers (store s) px py x)
                  \<longrightarrow> tile_at (store s') x = tile_at (store s) x)"
proof -
  let ?C = "covers (store s) px py"
  have a0: "a0 \<in> set as" "?C a0" using f by (auto simp: find_Some_split)
  obtain t0 where t0: "store s a0 = Some t0" using dll_live [OF dll a0(1)] by blast
  let ?ini = "\<lparr>minX = tx t0, maxX = tx t0 + width t0, minY = ty t0, maxY = ty t0 + height t0\<rparr>"
  let ?b = "grow_all (store s) (filter ?C as) ?ini"
  from merge_loop_dll [OF dll, where px = px and py = py and b = "?ini"] obtain s1 where l:
    "merge_loop px py (find ?C as) s ?ini = Some (s1, ?b)
     \<and> dll s1 (filter (\<lambda>x. \<not> ?C x) as)
     \<and> (\<forall>x. x \<in> set as \<and> ?C x \<longrightarrow> store s1 x = None)
     \<and> (\<forall>x. \<not> (x \<in> set as \<and> ?C x) \<longrightarrow> tile_at (store s1) x = tile_at (store s) x)
     \<and> (\<forall>x. x \<notin> set as \<longrightarrow> store s1 x = store s x)" ..
  have 1: "merge_loop px py (Some a0) s ?ini = Some (s1, ?b)"
    "dll s1 (filter (\<lambda>x. \<not> ?C x) as)"
    "\<And>x. x \<in> set as \<and> ?C x \<Longrightarrow> store s1 x = None"
    "\<And>x. \<not> (x \<in> set as \<and> ?C x) \<Longrightarrow> tile_at (store s1) x = tile_at (store s) x"
    "\<And>x. x \<notin> set as \<Longrightarrow> store s1 x = store s x"
    using l f by auto
  have fr: "store s1 a = None"
  proof (cases "a \<in> set as \<and> ?C a")
    case True
    then show ?thesis using 1(3) by blast
  next
    case False
    then have n: "store s a = None" using fresh by blast
    then have "a \<notin> set as" using dll_live [OF dll, of a] by auto
    then show ?thesis using 1(5) n by simp
  qed
  from addFront_dll [OF 1(2) fr, of "minX ?b" "minY ?b" "maxX ?b - minX ?b" "maxY ?b - minY ?b"
      "color t0"]
  obtain s' where 2: "addFront a (minX ?b) (minY ?b) (maxX ?b - minX ?b) (maxY ?b - minY ?b)
        (color t0) s1 = Some s'"
    "dll s' (a # filter (\<lambda>x. \<not> ?C x) as)"
    "tile_at (store s') a
       = Some (minX ?b, minY ?b, maxX ?b - minX ?b, maxY ?b - minY ?b, color t0)"
    "\<And>x. x \<noteq> a \<Longrightarrow> tile_at (store s') x = tile_at (store s1) x"
    by blast
  obtain n where n: "store s' a = Some n"
    "tile_of n = (minX ?b, minY ?b, maxX ?b - minX ?b, maxY ?b - minY ?b, color t0)"
    using 2(3) by (auto simp: tile_at_def)
  have nf: "tx n = minX ?b" "ty n = minY ?b" "tx n + width n = maxX ?b"
    "ty n + height n = maxY ?b" "color n = color t0"
    using n(2) by (simp_all add: tile_of_def)
  have m: "merge a px py s = Some s'"
    using findTile_dll [OF dll, of px py] f t0 1(1) 2(1)
    by (simp add: merge_def deref_def)
  have a0': "a0 \<in> set (filter ?C as)" using a0 by simp
  have bb: "bounding_box n (matching (store s) px py as)"
    unfolding bounding_box_def using grow_all_box [OF a0' t0] nf by simp
  have r1: "store s' x = None" if "x \<in> set as \<and> ?C x \<and> x \<noteq> a" for x
  proof -
    have "tile_at (store s') x = tile_at (store s1) x" using 2(4) that by blast
    moreover have "store s1 x = None" using 1(3) that by blast
    ultimately show ?thesis by (simp add: tile_at_def)
  qed
  have r2: "tile_at (store s') x = tile_at (store s) x"
    if "x \<noteq> a \<and> \<not> (x \<in> set as \<and> ?C x)" for x
    using 2(4) [of x] 1(4) [of x] that by simp
  show ?thesis using m 2(2) t0 n(1) nf(5) bb r1 r2 by blast
qed

lemma bounding_box_contains:
  assumes "bounding_box n ts" "t \<in> set ts" "contains t p q"
  shows "contains n p q"
proof -
  have "tx n \<le>s tx t" "tx t + width t \<le>s tx n + width n"
    "ty n \<le>s ty t" "ty t + height t \<le>s ty n + height n"
    using assms(1,2) by (auto simp: bounding_box_def)
  then show ?thesis using assms(3)
    by (auto simp: contains_def word_sle_eq word_sless_alt)
qed

section \<open>Clearing the list\<close>

lemma clear_loop_path:
  assumes "path next (store s) (front s) cs None" "distinct cs"
    "back s = (if cs = [] then None else Some (last cs))"
  shows "\<exists>s'. clear_loop s = Some s' \<and> front s' = back s'
           \<and> (\<forall>x. store s' x = (if x \<in> set (butlast cs) then None else store s x))"
  using assms
proof (induction cs arbitrary: s)
  case Nil
  then have "front s = back s" by simp
  then have "clear_loop s = Some s" by (subst clear_loop.simps) simp
  then show ?case using \<open>front s = back s\<close> by simp
next
  case (Cons c cs)
  then obtain n where n: "front s = Some c" "store s c = Some n"
    "path next (store s) (next n) cs None"
    by (auto split: option.splits)
  show ?case
  proof (cases cs)
    case Nil
    then have "front s = back s" using n(1) Cons.prems(3) by simp
    then have "clear_loop s = Some s" by (subst clear_loop.simps) simp
    then show ?thesis using \<open>front s = back s\<close> Nil by simp
  next
    case (Cons c' cs')
    have ne: "front s \<noteq> back s" using n(1) Cons.prems(2,3) Cons by auto
    let ?s = "s\<lparr>front := next n, store := (store s)(c := None)\<rparr>"
    have step: "clear_loop s = clear_loop ?s"
      using ne n(1,2) by (subst clear_loop.simps) (simp add: deref_def delete_node_def)
    have c: "c \<notin> set cs" using Cons.prems(2) by simp
    have "path next ((store s)(c := None)) (next n) cs None"
      by (rule path_frame [OF n(3)]) (use c in auto)
    then have p: "path next (store ?s) (front ?s) cs None" by simp
    have b: "back ?s = (if cs = [] then None else Some (last cs))"
      using Cons.prems(3) Cons by simp
    have d: "distinct cs" using Cons.prems(2) by simp
    from Cons.IH [OF p d b] obtain s' where ih:
      "clear_loop ?s = Some s' \<and> front s' = back s'
           \<and> (\<forall>x. store s' x = (if x \<in> set (butlast cs) then None else store ?s x))" ..
    have "store s' x = (if x \<in> set (butlast (c # cs)) then None else store s x)" for x
      using ih Cons by auto
    then show ?thesis using step ih by auto
  qed
qed

lemma clear_dll:
  assumes "dll s as"
  shows "\<exists>s'. clear s = Some s' \<and> dll s' []
           \<and> (\<forall>x. store s' x = (if x \<in> set (butlast as) then None else store s x))"
proof -
  have 1: "path next (store s) (front s) as None" "distinct as"
    "back s = (if as = [] then None else Some (last as))"
    using assms dll_back [OF assms] by (simp_all add: dll_def)
  from clear_loop_path [OF 1] obtain s1 where l:
    "clear_loop s = Some s1 \<and> front s1 = back s1
       \<and> (\<forall>x. store s1 x = (if x \<in> set (butlast as) then None else store s x))" ..
  then have "clear s = Some (s1\<lparr>front := None, back := None\<rparr>)" by (simp add: clear_def)
  then show ?thesis using l by (simp add: dll_Nil)
qed

section \<open>Well-formedness in terms of positions\<close>

lemma path_nth:
  "path f h p as q \<longleftrightarrow>
     p = (if as = [] then q else Some (hd as))
     \<and> (\<forall>i<length as. \<exists>n. h (as ! i) = Some n
            \<and> f n = (if Suc i = length as then q else Some (as ! Suc i)))"
proof (induction as arbitrary: p)
  case Nil
  then show ?case by auto
next
  case (Cons a as)
  have "path f h p (a # as) q \<longleftrightarrow>
          p = Some a \<and> (\<exists>n. h a = Some n \<and> path f h (f n) as q)"
    by (auto split: option.splits)
  also have "\<dots> \<longleftrightarrow> p = Some a \<and> (\<exists>n. h a = Some n
      \<and> f n = (if as = [] then q else Some (hd as))
      \<and> (\<forall>i<length as. \<exists>n. h (as ! i) = Some n
            \<and> f n = (if Suc i = length as then q else Some (as ! Suc i))))"
    using Cons.IH by simp
  also have "\<dots> \<longleftrightarrow> p = Some a
      \<and> (\<forall>i<length (a # as). \<exists>n. h ((a # as) ! i) = Some n
            \<and> f n = (if Suc i = length (a # as) then q else Some ((a # as) ! Suc i)))"
    by (cases as) (auto simp: All_less_Suc2 simp del: All_less_Suc)
  finally show ?case by simp
qed

lemma rev_index_aux:
  fixes as :: "'a list"
  assumes j: "j < length as"
  defines "i \<equiv> length as - 1 - j"
  shows "i < length as" "rev as ! i = as ! j" "length as - 1 - i = j"
    "(if Suc i = length as then None else Some (rev as ! Suc i))
       = (if j = 0 then None else Some (as ! (j - 1)))"
proof -
  show i: "i < length as" using j by (simp add: i_def)
  show "rev as ! i = as ! j" using j by (simp add: i_def rev_nth)
  show "length as - 1 - i = j" using j by (simp add: i_def)
  show "(if Suc i = length as then None else Some (rev as ! Suc i))
       = (if j = 0 then None else Some (as ! (j - 1)))"
  proof (cases "j = 0")
    case True
    then have "Suc i = length as" using j by (simp add: i_def)
    then show ?thesis using True by simp
  next
    case False
    then have s: "Suc i < length as" using j by (simp add: i_def)
    have "rev as ! Suc i = as ! (length as - Suc (Suc i))" using s by (rule rev_nth)
    moreover have "length as - Suc (Suc i) = j - 1" using False j by (simp add: i_def)
    ultimately show ?thesis using False s by simp
  qed
qed

lemma rev_index:
  fixes as :: "'a list"
  shows "(\<forall>i<length as. P (rev as ! i) (if Suc i = length as then None else Some (rev as ! Suc i)))
     \<longleftrightarrow> (\<forall>j<length as. P (as ! j) (if j = 0 then None else Some (as ! (j - 1))))"
    (is "?L \<longleftrightarrow> ?R")
proof
  assume l: ?L
  show ?R
  proof (intro allI impI)
    fix j assume j: "j < length as"
    define i where "i = length as - 1 - j"
    have "P (rev as ! i) (if Suc i = length as then None else Some (rev as ! Suc i))"
      using l rev_index_aux(1) [OF j] unfolding i_def by blast
    then show "P (as ! j) (if j = 0 then None else Some (as ! (j - 1)))"
      unfolding i_def rev_index_aux(2) [OF j] rev_index_aux(4) [OF j] .
  qed
next
  assume r: ?R
  show ?L
  proof (intro allI impI)
    fix i assume i: "i < length as"
    define j where "j = length as - 1 - i"
    have j: "j < length as" using i by (simp add: j_def)
    have ij: "length as - 1 - j = i" using i by (simp add: j_def)
    have "P (as ! j) (if j = 0 then None else Some (as ! (j - 1)))"
      using r j by blast
    then show "P (rev as ! i) (if Suc i = length as then None else Some (rev as ! Suc i))"
      using rev_index_aux(2) [OF j] rev_index_aux(4) [OF j] unfolding ij by simp
  qed
qed

lemma dll_iff_linked: "dll s as \<longleftrightarrow> linked s as"
proof -
  let ?h = "store s"
  have n: "path next ?h (front s) as None \<longleftrightarrow>
     front s = (if as = [] then None else Some (hd as))
     \<and> (\<forall>i<length as. \<exists>n. ?h (as ! i) = Some n
            \<and> next n = (if Suc i = length as then None else Some (as ! Suc i)))"
    by (rule path_nth)
  have "path prev ?h (back s) (rev as) None \<longleftrightarrow>
     back s = (if as = [] then None else Some (last as))
     \<and> (\<forall>i<length as. \<exists>n. ?h (rev as ! i) = Some n
            \<and> prev n = (if Suc i = length as then None else Some (rev as ! Suc i)))"
    using path_nth [of prev ?h "back s" "rev as" None] by (simp add: hd_rev)
  also have "(\<forall>i<length as. \<exists>n. ?h (rev as ! i) = Some n
            \<and> prev n = (if Suc i = length as then None else Some (rev as ! Suc i)))
      \<longleftrightarrow> (\<forall>j<length as. \<exists>n. ?h (as ! j) = Some n
            \<and> prev n = (if j = 0 then None else Some (as ! (j - 1))))"
    by (rule rev_index [of as "\<lambda>x q. \<exists>n. ?h x = Some n \<and> prev n = q"])
  finally have p: "path prev ?h (back s) (rev as) None \<longleftrightarrow>
     back s = (if as = [] then None else Some (last as))
     \<and> (\<forall>j<length as. \<exists>n. ?h (as ! j) = Some n
            \<and> prev n = (if j = 0 then None else Some (as ! (j - 1))))" .
  have eq: "(\<exists>n. ?h x = Some n \<and> B n \<and> A n)
      \<longleftrightarrow> (\<exists>n. ?h x = Some n \<and> A n) \<and> (\<exists>n. ?h x = Some n \<and> B n)" for x A B
    by auto
  have "(\<forall>i<length as. \<exists>n. ?h (as ! i) = Some n
            \<and> prev n = (if i = 0 then None else Some (as ! (i - 1)))
            \<and> next n = (if Suc i = length as then None else Some (as ! Suc i)))
     \<longleftrightarrow> (\<forall>i<length as. \<exists>n. ?h (as ! i) = Some n
            \<and> next n = (if Suc i = length as then None else Some (as ! Suc i)))
       \<and> (\<forall>j<length as. \<exists>n. ?h (as ! j) = Some n
            \<and> prev n = (if j = 0 then None else Some (as ! (j - 1))))"
    unfolding eq by blast
  then show ?thesis unfolding dll_def linked_def n p by blast
qed

lemma well_formed_dll: "well_formed s \<longleftrightarrow> (\<exists>as. dll s as)"
proof -
  have "front s = None \<longleftrightarrow> back s = None" if "dll s as" for as
    using dll_front [OF that] dll_back [OF that] by (cases as) auto
  then show ?thesis unfolding well_formed_def dll_iff_linked [symmetric] by blast
qed

section \<open>Every operation keeps the list well formed\<close>

lemma fresh_for_merge:
  assumes dll: "dll s as" and f: "fresh_for (Merge a px py) s"
  shows "store s a = None \<or> (a \<in> set as \<and> covers (store s) px py a)"
proof -
  let ?C = "covers (store s) px py"
  from removeAll_loop_dll [OF dll, where px = px and py = py and k = 0] obtain s1 where l:
    "removeAll_loop px py s 0 = Some (s1, 0 + of_nat (length (filter ?C as)))
     \<and> dll s1 (filter (\<lambda>x. \<not> ?C x) as)
     \<and> (\<forall>x. x \<in> set as \<and> ?C x \<longrightarrow> store s1 x = None)
     \<and> (\<forall>x. \<not> (x \<in> set as \<and> ?C x) \<longrightarrow> tile_at (store s1) x = tile_at (store s) x)
     \<and> (\<forall>x. x \<notin> set as \<longrightarrow> store s1 x = store s x)" ..
  then have n: "store s1 a = None" using f by (simp add: removeAll_tiles_def)
  show ?thesis
  proof (cases "a \<in> set as \<and> ?C a")
    case True
    then show ?thesis by simp
  next
    case False
    then have "tile_at (store s1) a = tile_at (store s) a" using l by blast
    then show ?thesis using n by (simp add: tile_at_def)
  qed
qed

lemma highlight_keeps:
  assumes dll: "dll s as"
  shows "\<exists>s' r. highlight px py s = Some (s', r) \<and> dll s' as"
proof (cases "find (covers (store s) px py) as")
  case None
  then have "highlight px py s = Some (s, False)"
    using highlight_dll [OF dll, of px py] by auto
  then show ?thesis using dll by blast
next
  case (Some a)
  then obtain n where "store s a = Some n"
    "highlight px py s = Some (s\<lparr>store := (store s)(a \<mapsto> n\<lparr>color := ''yellow''\<rparr>)\<rparr>, True)"
    using highlight_dll [OF dll, of px py] by auto
  then show ?thesis using dll_color [OF dll, of a n "''yellow''"] by blast
qed

lemma raise_keeps:
  assumes dll: "dll s as"
  shows "\<exists>s' r as'. raise px py s = Some (s', r) \<and> dll s' as'"
proof -
  obtain s' r where 1: "raise px py s = Some (s', r) \<and>
           (case find (covers (store s) px py) as of
              None \<Rightarrow> \<not> r \<and> s' = s
            | Some a \<Rightarrow>
                if a = hd as then \<not> r \<and> s' = s
                else r \<and> dll s' (a # remove1 a as)
                  \<and> (\<forall>x. tile_at (store s') x = tile_at (store s) x)
                  \<and> (\<forall>x. x \<notin> set as \<longrightarrow> store s' x = store s x))"
    using raise_dll [OF dll, of px py] by blast
  then have "dll s' as \<or> (\<exists>a. dll s' (a # remove1 a as))"
    using dll by (auto split: option.splits if_splits)
  then show ?thesis using 1 by blast
qed

lemma lower_keeps:
  assumes dll: "dll s as"
  shows "\<exists>s' r as'. lower px py s = Some (s', r) \<and> dll s' as'"
proof -
  obtain s' r where 1: "lower px py s = Some (s', r) \<and>
           (case find (covers (store s) px py) as of
              None \<Rightarrow> \<not> r \<and> s' = s
            | Some a \<Rightarrow>
                if a = last as then \<not> r \<and> s' = s
                else r \<and> dll s' (remove1 a as @ [a])
                  \<and> (\<forall>x. tile_at (store s') x = tile_at (store s) x)
                  \<and> (\<forall>x. x \<notin> set as \<longrightarrow> store s' x = store s x))"
    using lower_dll [OF dll, of px py] by blast
  then have "dll s' as \<or> (\<exists>a. dll s' (remove1 a as @ [a]))"
    using dll by (auto split: option.splits if_splits)
  then show ?thesis using 1 by blast
qed

lemma remove_keeps:
  assumes dll: "dll s as"
  shows "\<exists>s' r as'. remove px py s = Some (s', r) \<and> dll s' as'"
proof -
  obtain s' r where 1: "remove px py s = Some (s', r) \<and>
           (case find (covers (store s) px py) as of
              None \<Rightarrow> \<not> r \<and> s' = s
            | Some a \<Rightarrow>
                r \<and> dll s' (remove1 a as) \<and> store s' a = None
                  \<and> (\<forall>x. x \<noteq> a \<longrightarrow> tile_at (store s') x = tile_at (store s) x)
                  \<and> (\<forall>x. x \<notin> set as \<longrightarrow> store s' x = store s x))"
    using remove_dll [OF dll, of px py] by blast
  then have "dll s' as \<or> (\<exists>a. dll s' (remove1 a as))"
    using dll by (auto split: option.splits)
  then show ?thesis using 1 by blast
qed

lemma removeAll_keeps:
  assumes dll: "dll s as"
  shows "\<exists>s' k as'. removeAll_tiles px py s = Some (s', k) \<and> dll s' as'"
proof -
  from removeAll_loop_dll [OF dll, where px = px and py = py and k = 0] obtain s' where
    "removeAll_loop px py s 0 = Some (s', 0 + of_nat (length (filter (covers (store s) px py) as)))"
    "dll s' (filter (\<lambda>x. \<not> covers (store s) px py x) as)"
    by blast
  then show ?thesis unfolding removeAll_tiles_def by blast
qed

lemma merge_keeps:
  assumes dll: "dll s as"
    and fresh: "store s a = None \<or> (a \<in> set as \<and> covers (store s) px py a)"
  shows "\<exists>s' as'. merge a px py s = Some s' \<and> dll s' as'"
proof (cases "find (covers (store s) px py) as")
  case None
  then have "merge a px py s = Some s" using merge_none [OF dll] by (simp add: find_None_iff2)
  then show ?thesis using dll by blast
next
  case (Some a0)
  from merge_dll [OF dll Some fresh] obtain s' where "merge a px py s = Some s'"
    "dll s' (a # filter (\<lambda>x. \<not> covers (store s) px py x) as)"
    by blast
  then show ?thesis by blast
qed

lemma merge_Some_fresh:
  assumes dll: "dll s as" and m: "merge a px py s = Some s'"
    and f: "find (covers (store s) px py) as = Some a0"
  shows "store s a = None \<or> (a \<in> set as \<and> covers (store s) px py a)"
proof -
  let ?C = "covers (store s) px py"
  have a0: "a0 \<in> set as" using f by (auto simp: find_Some_split)
  obtain t0 where t0: "store s a0 = Some t0" using dll_live [OF dll a0] by blast
  let ?ini = "\<lparr>minX = tx t0, maxX = tx t0 + width t0, minY = ty t0, maxY = ty t0 + height t0\<rparr>"
  from merge_loop_dll [OF dll, where px = px and py = py and b = "?ini"] obtain s1 where l:
    "merge_loop px py (find ?C as) s ?ini
       = Some (s1, grow_all (store s) (filter ?C as) ?ini)
     \<and> dll s1 (filter (\<lambda>x. \<not> ?C x) as)
     \<and> (\<forall>x. x \<in> set as \<and> ?C x \<longrightarrow> store s1 x = None)
     \<and> (\<forall>x. \<not> (x \<in> set as \<and> ?C x) \<longrightarrow> tile_at (store s1) x = tile_at (store s) x)
     \<and> (\<forall>x. x \<notin> set as \<longrightarrow> store s1 x = store s x)" ..
  let ?b = "grow_all (store s) (filter ?C as) ?ini"
  have "addFront a (minX ?b) (minY ?b) (maxX ?b - minX ?b) (maxY ?b - minY ?b) (color t0) s1
          = Some s'"
    using m findTile_dll [OF dll, of px py] f t0 l by (simp add: merge_def deref_def)
  then have n: "store s1 a = None"
    by (auto simp: addFront_def new_TileNode_def split: if_splits)
  show ?thesis
  proof (cases "a \<in> set as \<and> ?C a")
    case True
    then show ?thesis by simp
  next
    case False
    then have "tile_at (store s1) a = tile_at (store s) a" using l by blast
    then show ?thesis using n by (simp add: tile_at_def)
  qed
qed

lemma exec_dll:
  assumes dll: "dll s as" and f: "fresh_for op s"
  shows "\<exists>s' as'. exec op s = Some s' \<and> dll s' as'"
proof (cases op)
  case (AddFront a px py w h c)
  then have "store s a = None" using f by simp
  from addFront_dll [OF dll this, of px py w h c] show ?thesis using AddFront by auto
next
  case (AddBack a px py w h c)
  then have "store s a = None" using f by simp
  from addBack_dll [OF dll this, of px py w h c] show ?thesis using AddBack by auto
next
  case (Highlight px py)
  from highlight_keeps [OF dll, of px py] show ?thesis using Highlight by auto
next
  case (Raise px py)
  from raise_keeps [OF dll, of px py] show ?thesis using Raise by auto
next
  case (Lower px py)
  from lower_keeps [OF dll, of px py] show ?thesis using Lower by auto
next
  case (Remove px py)
  from remove_keeps [OF dll, of px py] show ?thesis using Remove by auto
next
  case (RemoveAll px py)
  from removeAll_keeps [OF dll, of px py] show ?thesis using RemoveAll by auto
next
  case (Merge a px py)
  have "store s a = None \<or> (a \<in> set as \<and> covers (store s) px py a)"
    using fresh_for_merge [OF dll] f Merge by simp
  from merge_keeps [OF dll this] show ?thesis using Merge by auto
next
  case Clear
  from clear_dll [OF dll] show ?thesis using Clear by auto
qed

lemma exec_Some_dll:
  assumes dll: "dll s as" and e: "exec op s = Some s'"
  shows "\<exists>as'. dll s' as'"
proof (cases "fresh_for op s")
  case True
  from exec_dll [OF dll True] show ?thesis using e by auto
next
  case False
  show ?thesis
  proof (cases op)
    case (AddFront a px py w h c)
    then show ?thesis using False e by (auto simp: addFront_def new_TileNode_def)
  next
    case (AddBack a px py w h c)
    then show ?thesis using False e by (auto simp: addBack_def new_TileNode_def)
  next
    case (Merge a px py)
    show ?thesis
    proof (cases "find (covers (store s) px py) as")
      case None
      then have "merge a px py s = Some s" using merge_none [OF dll] by (simp add: find_None_iff2)
      then show ?thesis using Merge e dll by auto
    next
      case (Some a0)
      have m: "merge a px py s = Some s'" using e Merge by simp
      from merge_keeps [OF dll merge_Some_fresh [OF dll m Some]] show ?thesis using m by auto
    qed
  qed (use False in simp_all)
qed

lemma run_dll:
  assumes "run ops s = Some s'" "dll s as"
  shows "\<exists>as'. dll s' as'"
  using assms
proof (induction ops arbitrary: s as)
  case Nil
  then show ?case by auto
next
  case (Cons op ops)
  then obtain s1 where s1: "exec op s = Some s1" "run ops s1 = Some s'"
    by (auto split: option.splits)
  obtain as1 where "dll s1 as1" using exec_Some_dll [OF Cons.prems(2) s1(1)] by blast
  then show ?case using Cons.IH [OF s1(2)] by blast
qed

lemma reachable_dll:
  assumes "run ops (TileList_init h) = Some s"
  shows "\<exists>as. dll s as"
proof -
  have "dll (TileList_init h) []" by (simp add: dll_def TileList_init_def)
  then show ?thesis using run_dll [OF assms] by blast
qed

section \<open>Moving or removing one node\<close>

lemma neighbours_Nil [simp]: "neighbours [] = {}" "neighbours [x] = {}"
  by (simp_all add: neighbours_def)

lemma neighbours_Cons:
  "neighbours (x # xs) = (if xs = [] then {} else {(x, hd xs)}) \<union> neighbours xs"
  by (cases xs) (auto simp: neighbours_def)

lemma neighbours_append:
  "neighbours (xs @ ys)
     = neighbours xs \<union> neighbours ys \<union> (if xs = [] \<or> ys = [] then {} else {(last xs, hd ys)})"
proof (induction xs)
  case Nil
  then show ?case by (simp add: neighbours_def)
next
  case (Cons x xs)
  show ?case
    using Cons.IH by (cases xs; cases ys) (auto simp: neighbours_Cons)
qed

lemma neighbours_set: "(u, v) \<in> neighbours as \<Longrightarrow> u \<in> set as \<and> v \<in> set as"
proof (induction as)
  case Nil
  then show ?case by (simp add: neighbours_def)
next
  case (Cons x xs)
  then show ?case by (cases xs) (auto simp: neighbours_Cons split: if_splits)
qed

lemma filter_neq_id: "a \<notin> set xs \<Longrightarrow> filter (\<lambda>x. x \<noteq> a) xs = xs"
  by (induction xs) auto

lemma neighbours_without:
  assumes "(u, v) \<in> neighbours (bs @ a # cs)" "u \<noteq> a" "v \<noteq> a"
  shows "(u, v) \<in> neighbours bs \<union> neighbours cs"
  using assms by (auto simp: neighbours_append neighbours_Cons split: if_splits)

lemma filter_others:
  assumes "distinct (bs @ a # cs)"
  shows "filter (\<lambda>x. x \<noteq> a) (bs @ a # cs) = bs @ cs"
  using assms by (simp add: filter_neq_id)

lemma others_kept_moves:
  assumes d: "distinct (bs @ a # cs)"
  shows "others_kept a (bs @ a # cs) (a # bs @ cs)"
    and "others_kept a (bs @ a # cs) ((bs @ cs) @ [a])"
    and "others_kept a (bs @ a # cs) (bs @ cs)"
proof -
  have n: "a \<notin> set bs" "a \<notin> set cs" "distinct (bs @ cs)" using d by auto
  have f: "filter (\<lambda>x. x \<noteq> a) (bs @ cs) = bs @ cs"
    using n by (simp add: filter_neq_id)
  have w: "(u, v) \<in> neighbours (bs @ cs)"
    if "(u, v) \<in> neighbours (bs @ a # cs)" "u \<noteq> a" "v \<noteq> a" for u v
    using neighbours_without [OF that] by (auto simp: neighbours_append)
  have w2: "(u, v) \<in> neighbours ((bs @ cs) @ [a])"
    if "(u, v) \<in> neighbours (bs @ a # cs)" "u \<noteq> a" "v \<noteq> a" for u v
    using w [OF that] unfolding neighbours_append [of "bs @ cs" "[a]"] by blast
  have na: "u \<noteq> a \<and> v \<noteq> a" if "(u, v) \<in> neighbours (bs @ cs)" for u v
    using neighbours_set [OF that] n by auto
  have e1: "{(u, v). (u, v) \<in> neighbours (a # bs @ cs) \<and> u \<noteq> a \<and> v \<noteq> a}
              = neighbours (bs @ cs)"
    using na by (auto simp: neighbours_Cons [of a "bs @ cs"] split: if_splits)
  have e2: "{(u, v). (u, v) \<in> neighbours ((bs @ cs) @ [a]) \<and> u \<noteq> a \<and> v \<noteq> a}
              = neighbours (bs @ cs)"
    unfolding neighbours_append [of "bs @ cs" "[a]"] using na by (auto split: if_splits)
  have e3: "{(u, v). (u, v) \<in> neighbours (bs @ cs) \<and> u \<noteq> a \<and> v \<noteq> a}
              = neighbours (bs @ cs)"
    using na by auto
  have fo: "filter (\<lambda>x. x \<noteq> a) (bs @ a # cs) = bs @ cs" by (rule filter_others [OF d])
  have k1: "filter (\<lambda>x. x \<noteq> a) (a # bs @ cs) = bs @ cs" using f by simp
  have k2: "filter (\<lambda>x. x \<noteq> a) ((bs @ cs) @ [a]) = bs @ cs" using f by simp
  have d1: "distinct (a # bs @ cs)" "distinct ((bs @ cs) @ [a])" using d by auto
  show "others_kept a (bs @ a # cs) (a # bs @ cs)"
    unfolding others_kept_def fo k1 e1 using d1(1) w by (auto simp: neighbours_Cons)
  show "others_kept a (bs @ a # cs) ((bs @ cs) @ [a])"
    unfolding others_kept_def fo k2 e2 using d1(2) w2 by blast
  show "others_kept a (bs @ a # cs) (bs @ cs)"
    unfolding others_kept_def fo f e3 using n(3) w by blast
qed

lemma others_kept_front:
  assumes d: "distinct (bs @ a # cs)" and h: "a = hd (bs @ a # cs)"
  shows "others_kept a (bs @ a # cs) (bs @ a # cs)"
proof -
  have "bs = []"
  proof (cases bs)
    case Nil
    then show ?thesis .
  next
    case (Cons b bs')
    then have "a = b" using h by simp
    then show ?thesis using d Cons by simp
  qed
  then show ?thesis using others_kept_moves(1) [OF d] by simp
qed

lemma others_kept_back:
  assumes d: "distinct (bs @ a # cs)" and h: "a = last (bs @ a # cs)"
  shows "others_kept a (bs @ a # cs) (bs @ a # cs)"
proof -
  have "cs = []"
  proof (cases cs rule: rev_cases)
    case Nil
    then show ?thesis .
  next
    case (snoc cs' c)
    then have "a = c" using h by simp
    then show ?thesis using d snoc by simp
  qed
  then show ?thesis using others_kept_moves(2) [OF d] by simp
qed

lemma raise_others:
  assumes dll: "dll s as"
  shows "\<exists>s' r as'. raise px py s = Some (s', r) \<and> dll s' as' \<and> set as' = set as
           \<and> (case find (covers (store s) px py) as of
                 None \<Rightarrow> as' = as
               | Some a \<Rightarrow> others_kept a as as')"
proof -
  have d: "distinct as" using dll by (simp add: dll_def)
  obtain s' r where 1: "raise px py s = Some (s', r) \<and>
           (case find (covers (store s) px py) as of
              None \<Rightarrow> \<not> r \<and> s' = s
            | Some a \<Rightarrow>
                if a = hd as then \<not> r \<and> s' = s
                else r \<and> dll s' (a # remove1 a as)
                  \<and> (\<forall>x. tile_at (store s') x = tile_at (store s) x)
                  \<and> (\<forall>x. x \<notin> set as \<longrightarrow> store s' x = store s x))"
    using raise_dll [OF dll, of px py] by blast
  show ?thesis
  proof (cases "find (covers (store s) px py) as")
    case None
    then have "dll s' as" using 1 dll by simp
    then show ?thesis using 1 None by auto
  next
    case (Some a)
    then obtain bs cs where as: "as = bs @ a # cs" by (auto simp: find_Some_split)
    show ?thesis
    proof (cases "a = hd as")
      case True
      have ok: "others_kept a as as"
        using others_kept_front [of bs a cs] d True unfolding as by blast
      have "raise px py s = Some (s', r)" "dll s' as" using 1 Some True dll by simp_all
      then show ?thesis
        by (intro exI [of _ s'] exI [of _ r] exI [of _ as]) (simp add: Some ok)
    next
      case False
      have rm: "remove1 a as = bs @ cs" using as d by (simp add: remove1_split)
      have "dll s' (a # bs @ cs)" using 1 Some False rm by simp
      moreover have "others_kept a as (a # bs @ cs)"
        using others_kept_moves(1) [of bs a cs] d as by simp
      moreover have "set (a # bs @ cs) = set as" using as by auto
      ultimately show ?thesis using 1 Some by auto
    qed
  qed
qed

lemma lower_others:
  assumes dll: "dll s as"
  shows "\<exists>s' r as'. lower px py s = Some (s', r) \<and> dll s' as' \<and> set as' = set as
           \<and> (case find (covers (store s) px py) as of
                 None \<Rightarrow> as' = as
               | Some a \<Rightarrow> others_kept a as as')"
proof -
  have d: "distinct as" using dll by (simp add: dll_def)
  obtain s' r where 1: "lower px py s = Some (s', r) \<and>
           (case find (covers (store s) px py) as of
              None \<Rightarrow> \<not> r \<and> s' = s
            | Some a \<Rightarrow>
                if a = last as then \<not> r \<and> s' = s
                else r \<and> dll s' (remove1 a as @ [a])
                  \<and> (\<forall>x. tile_at (store s') x = tile_at (store s) x)
                  \<and> (\<forall>x. x \<notin> set as \<longrightarrow> store s' x = store s x))"
    using lower_dll [OF dll, of px py] by blast
  show ?thesis
  proof (cases "find (covers (store s) px py) as")
    case None
    then have "dll s' as" using 1 dll by simp
    then show ?thesis using 1 None by auto
  next
    case (Some a)
    then obtain bs cs where as: "as = bs @ a # cs" by (auto simp: find_Some_split)
    show ?thesis
    proof (cases "a = last as")
      case True
      have ok: "others_kept a as as"
        using others_kept_back [of bs a cs] d True unfolding as by blast
      have "lower px py s = Some (s', r)" "dll s' as" using 1 Some True dll by simp_all
      then show ?thesis
        by (intro exI [of _ s'] exI [of _ r] exI [of _ as]) (simp add: Some ok)
    next
      case False
      have rm: "remove1 a as = bs @ cs" using as d by (simp add: remove1_split)
      have "dll s' ((bs @ cs) @ [a])" using 1 Some False rm by simp
      moreover have "others_kept a as ((bs @ cs) @ [a])"
        using others_kept_moves(2) [of bs a cs] d as by simp
      moreover have "set ((bs @ cs) @ [a]) = set as" using as by auto
      moreover have "lower px py s = Some (s', r)" using 1 by simp
      ultimately show ?thesis
        by (intro exI [of _ s'] exI [of _ r] exI [of _ "(bs @ cs) @ [a]"])
          (simp add: Some)
    qed
  qed
qed

lemma remove_others:
  assumes dll: "dll s as"
  shows "\<exists>s' r as'. remove px py s = Some (s', r) \<and> dll s' as'
           \<and> (case find (covers (store s) px py) as of
                 None \<Rightarrow> as' = as
               | Some a \<Rightarrow> others_kept a as as' \<and> set as' = set as - {a})"
proof -
  have d: "distinct as" using dll by (simp add: dll_def)
  obtain s' r where 1: "remove px py s = Some (s', r) \<and>
           (case find (covers (store s) px py) as of
              None \<Rightarrow> \<not> r \<and> s' = s
            | Some a \<Rightarrow>
                r \<and> dll s' (remove1 a as) \<and> store s' a = None
                  \<and> (\<forall>x. x \<noteq> a \<longrightarrow> tile_at (store s') x = tile_at (store s) x)
                  \<and> (\<forall>x. x \<notin> set as \<longrightarrow> store s' x = store s x))"
    using remove_dll [OF dll, of px py] by blast
  show ?thesis
  proof (cases "find (covers (store s) px py) as")
    case None
    then have "dll s' as" using 1 dll by simp
    then show ?thesis using 1 None by auto
  next
    case (Some a)
    then obtain bs cs where as: "as = bs @ a # cs" by (auto simp: find_Some_split)
    have rm: "remove1 a as = bs @ cs" using as d by (simp add: remove1_split)
    have "dll s' (bs @ cs)" using 1 Some rm by simp
    moreover have "others_kept a as (bs @ cs)"
      using others_kept_moves(3) [of bs a cs] d as by simp
    moreover have "set (bs @ cs) = set as - {a}" using as d by auto
    ultimately show ?thesis using 1 Some by auto
  qed
qed

lemma removeAll_loop_step:
  assumes dll: "dll s as" and f: "find (covers (store s) px py) as = Some a"
  shows "\<exists>s1 as1. remove px py s = Some (s1, True) \<and> dll s1 as1 \<and> length as1 < length as
           \<and> (\<forall>k. removeAll_loop px py s k = removeAll_loop px py s1 (k + 1))"
proof -
  obtain bs cs where as: "as = bs @ a # cs" using f by (auto simp: find_Some_split)
  have dll': "dll s (bs @ a # cs)" using dll as by simp
  obtain s1 where 1: "detachTile (Some a) s = Some s1"
    "delete_node (Some a) (store s1) = Some ((store s1)(a := None))"
    "dll (s1\<lparr>store := (store s1)(a := None)\<rparr>) (bs @ cs)"
    using detach_delete_dll [OF dll'] by blast
  let ?s2 = "s1\<lparr>store := (store s1)(a := None)\<rparr>"
  have r: "remove px py s = Some (?s2, True)"
    using findTile_dll [OF dll, of px py] f 1(1,2) by (simp add: remove_def)
  have step: "removeAll_loop px py s k = removeAll_loop px py ?s2 (k + 1)" for k
    using findTile_dll [OF dll, of px py] f 1(1,2)
    by (subst removeAll_loop.simps) simp
  have "length (bs @ cs) < length as" using as by simp
  then show ?thesis using r 1(3) step by blast
qed

lemma removeAll_loop_shift:
  assumes "dll s as"
  shows "removeAll_loop px py s k
           = map_option (\<lambda>(s', n). (s', n + k)) (removeAll_loop px py s 0)"
  using assms
proof (induction "length as" arbitrary: s as k rule: less_induct)
  case less
  show ?case
  proof (cases "find (covers (store s) px py) as")
    case None
    have "removeAll_loop px py s j = Some (s, j)" for j
      using findTile_dll [OF less.prems, of px py] None
      by (subst removeAll_loop.simps) simp
    then show ?thesis by simp
  next
    case (Some a)
    from removeAll_loop_step [OF less.prems Some] obtain s1 as1 where 1:
      "dll s1 as1" "length as1 < length as"
      "\<And>j. removeAll_loop px py s j = removeAll_loop px py s1 (j + 1)"
      by blast
    have a: "removeAll_loop px py s1 (k + 1)
               = map_option (\<lambda>(s', n). (s', n + (k + 1))) (removeAll_loop px py s1 0)"
      by (rule less.hyps [OF 1(2) 1(1)])
    have b: "removeAll_loop px py s1 (0 + 1)
               = map_option (\<lambda>(s', n). (s', n + (0 + 1))) (removeAll_loop px py s1 0)"
      by (rule less.hyps [OF 1(2) 1(1)])
    show ?thesis
      unfolding 1(3) [of k] 1(3) [of 0] a b
      by (cases "removeAll_loop px py s1 0") (auto simp: add.commute)
  qed
qed

lemma removeAll_first:
  assumes dll: "dll s as" and f: "find (covers (store s) px py) as = Some a"
  shows "\<exists>s1. remove px py s = Some (s1, True)
           \<and> removeAll_tiles px py s
                = map_option (\<lambda>(s', n). (s', n + 1)) (removeAll_tiles px py s1)"
proof -
  from removeAll_loop_step [OF dll f] obtain s1 as1 where 1:
    "remove px py s = Some (s1, True)" "dll s1 as1"
    "\<And>j. removeAll_loop px py s j = removeAll_loop px py s1 (j + 1)"
    by blast
  have "removeAll_loop px py s 0
          = map_option (\<lambda>(s', n). (s', n + 1)) (removeAll_loop px py s1 0)"
    using 1(3) [of 0] removeAll_loop_shift [OF 1(2), of px py 1] by simp
  then show ?thesis using 1(1) unfolding removeAll_tiles_def by blast
qed

section \<open>The example lists\<close>

lemma dll_two_tiles: "dll two_tiles [0, 1]"
  by (simp add: dll_def two_tiles_def)

lemma two_tiles_run:
  "run [AddFront 1 5 5 10 10 ''blue'', AddFront 0 0 0 10 10 ''red''] (TileList_init Map.empty)
     = Some two_tiles"
  by (simp add: addFront_def new_TileNode_def attachFront_def assign_def TileList_init_def
      two_tiles_def fun_upd_twist)

lemma three_tiles_run:
  "run [AddFront 0 0 0 10 10 ''red'', AddBack 1 5 5 10 10 ''blue'',
        AddBack 2 2 2 10 10 ''green''] (TileList_init Map.empty)
     = Some three_tiles"
  by (simp add: addFront_def addBack_def new_TileNode_def attachFront_def attachBack_def
      assign_def TileList_init_def three_tiles_def fun_eq_iff)

lemma covers_two_tiles:
  "covers (store two_tiles) px py 0 \<longleftrightarrow> 0 \<le>s px \<and> px <s 10 \<and> 0 \<le>s py \<and> py <s 10"
  "covers (store two_tiles) px py (Suc 0) \<longleftrightarrow> 5 \<le>s px \<and> px <s 15 \<and> 5 \<le>s py \<and> py <s 15"
  by (simp_all add: covers_def two_tiles_def contains_def)

lemmas sword_simps = word_sle_eq word_sless_alt

lemma find_two_tiles:
  "find (covers (store two_tiles) 6 6) [0, 1] = Some 0"
  "find (covers (store two_tiles) 12 12) [0, 1] = Some 1"
  "find (covers (store two_tiles) 20 20) [0, 1] = None"
  by (simp_all add: covers_two_tiles sword_simps)

lemma dll_three_tiles: "dll three_tiles [0, 1, 2]"
  by (simp add: dll_def three_tiles_def)

lemma covers_three_tiles:
  "covers (store three_tiles) px py 0 \<longleftrightarrow> 0 \<le>s px \<and> px <s 10 \<and> 0 \<le>s py \<and> py <s 10"
  "covers (store three_tiles) px py (Suc 0) \<longleftrightarrow> 5 \<le>s px \<and> px <s 15 \<and> 5 \<le>s py \<and> py <s 15"
  "covers (store three_tiles) px py 2 \<longleftrightarrow> 2 \<le>s px \<and> px <s 12 \<and> 2 \<le>s py \<and> py <s 12"
  by (simp_all add: covers_def three_tiles_def contains_def)

lemma filter_three_tiles:
  "filter (covers (store three_tiles) 6 6) [0, 1, 2] = [0, 1, 2]"
  "filter (\<lambda>x. \<not> covers (store three_tiles) 6 6 x) [0, 1, 2] = []"
  "filter (covers (store three_tiles) 1 1) [0, 1, 2] = [0]"
  "filter (\<lambda>x. \<not> covers (store three_tiles) 1 1 x) [0, 1, 2] = [1, 2]"
  by (simp_all add: covers_three_tiles sword_simps)

lemma matching_two_tiles:
  "matching (store two_tiles) 6 6 [0, 1]
     = [\<lparr>tx = 0, ty = 0, width = 10, height = 10, color = ''red'', prev = None, next = Some 1\<rparr>,
        \<lparr>tx = 5, ty = 5, width = 10, height = 10, color = ''blue'', prev = Some 0, next = None\<rparr>]"
  by (simp add: two_tiles_def contains_def sword_simps)

lemma filter_two_tiles:
  "filter (\<lambda>x. \<not> covers (store two_tiles) 6 6 x) [0, 1] = []"
  by (simp add: covers_two_tiles sword_simps)

lemma find_three_tiles:
  "find (covers (store three_tiles) 13 13) [0, 1, 2] = Some 1"
  by (simp add: covers_three_tiles sword_simps)

lemma raised_eq: "raise 13 13 three_tiles = Some (three_tiles_raised, True)"
proof -
  have f: "find (covers (store three_tiles) 13 13) [0, 1, 2] = Some 1"
    by (simp add: covers_three_tiles sword_simps)
  have "findTile 13 13 three_tiles = Some (Some 1)"
    using findTile_dll [OF dll_three_tiles, of 13 13] f by simp
  then show ?thesis
    by (simp add: raise_def detachTile_def attachFront_def deref_def assign_def
        three_tiles_def three_tiles_raised_def fun_eq_iff)
qed

section \<open>The claims\<close>

text \<open>
  The claims are about lists \<open>s\<close> that hold a sequence \<open>as\<close> of nodes, \<open>dll s as\<close>.
  These are all the lists there are: by \<open>reachable_dll\<close> every list that calls of the
  public operations make from the constructor's list is one. In every claim an operation
  that returns \<open>Some\<close> has returned normally, without undefined behaviour.
\<close>

text \<open>
  C1. On a well-formed list, \<^verbatim>\<open>findTile\<close> returns the first node in front-to-back order
  whose rectangle contains the point, and \<^verbatim>\<open>nullptr\<close> when no node of the list contains
  it.
\<close>

theorem findTile_first_match:
  assumes "dll s as"
  shows "findTile px py s = Some (find (covers (store s) px py) as)
         \<and> (case find (covers (store s) px py) as of
               None \<Rightarrow> \<forall>a\<in>set as. \<not> covers (store s) px py a
             | Some a \<Rightarrow> \<exists>bs cs. as = bs @ a # cs \<and> covers (store s) px py a
                           \<and> (\<forall>b\<in>set bs. \<not> covers (store s) px py b))"
proof -
  have "findTile px py s = Some (find (covers (store s) px py) as)"
    using assms by (rule findTile_dll)
  moreover have "find (covers (store s) px py) as = None
      \<Longrightarrow> \<forall>a\<in>set as. \<not> covers (store s) px py a"
    by (simp add: find_None_iff2)
  moreover have "find (covers (store s) px py) as = Some a
      \<Longrightarrow> \<exists>bs cs. as = bs @ a # cs \<and> covers (store s) px py a
                           \<and> (\<forall>b\<in>set bs. \<not> covers (store s) px py b)" for a
    by (simp add: find_Some_split)
  ultimately show ?thesis by (simp split: option.split)
qed

theorem findTile_first_match_witness:
  "dll two_tiles [0, 1] \<and> findTile 6 6 two_tiles = Some (Some 0)
     \<and> findTile 2 2 two_tiles = Some (Some 0) \<and> findTile 12 12 two_tiles = Some (Some 1)
     \<and> findTile 20 20 two_tiles = Some None"
  using findTile_first_match [OF dll_two_tiles, of 6 6]
    findTile_first_match [OF dll_two_tiles, of 2 2]
    findTile_first_match [OF dll_two_tiles, of 12 12]
    findTile_first_match [OF dll_two_tiles, of 20 20]
    dll_two_tiles
  by (simp add: covers_def two_tiles_def contains_def word_sle_eq word_sless_alt)

text \<open>
  C2. On a well-formed list, \<^verbatim>\<open>raise\<close> returns false and changes nothing when no node
  contains the point or when the first node that contains it is already the front one;
  otherwise it returns true and the list holds that node in front of the others, which keep
  their order, every node carrying the tile it carried. \<^verbatim>\<open>lower\<close> does the same towards
  the back.
\<close>

theorem raise_lower_move:
  assumes "dll s as"
  shows "(\<exists>s' r. raise px py s = Some (s', r) \<and>
           (case find (covers (store s) px py) as of
              None \<Rightarrow> \<not> r \<and> s' = s
            | Some a \<Rightarrow>
                if a = hd as then \<not> r \<and> s' = s
                else r \<and> dll s' (a # remove1 a as)
                  \<and> (\<forall>x. tile_at (store s') x = tile_at (store s) x)))
       \<and> (\<exists>s' r. lower px py s = Some (s', r) \<and>
           (case find (covers (store s) px py) as of
              None \<Rightarrow> \<not> r \<and> s' = s
            | Some a \<Rightarrow>
                if a = last as then \<not> r \<and> s' = s
                else r \<and> dll s' (remove1 a as @ [a])
                  \<and> (\<forall>x. tile_at (store s') x = tile_at (store s) x)))"
proof -
  obtain s1 r1 where 1: "raise px py s = Some (s1, r1) \<and>
           (case find (covers (store s) px py) as of
              None \<Rightarrow> \<not> r1 \<and> s1 = s
            | Some a \<Rightarrow>
                if a = hd as then \<not> r1 \<and> s1 = s
                else r1 \<and> dll s1 (a # remove1 a as)
                  \<and> (\<forall>x. tile_at (store s1) x = tile_at (store s) x)
                  \<and> (\<forall>x. x \<notin> set as \<longrightarrow> store s1 x = store s x))"
    using raise_dll [OF assms, of px py] by blast
  obtain s2 r2 where 2: "lower px py s = Some (s2, r2) \<and>
           (case find (covers (store s) px py) as of
              None \<Rightarrow> \<not> r2 \<and> s2 = s
            | Some a \<Rightarrow>
                if a = last as then \<not> r2 \<and> s2 = s
                else r2 \<and> dll s2 (remove1 a as @ [a])
                  \<and> (\<forall>x. tile_at (store s2) x = tile_at (store s) x)
                  \<and> (\<forall>x. x \<notin> set as \<longrightarrow> store s2 x = store s x))"
    using lower_dll [OF assms, of px py] by blast
  have "raise px py s = Some (s1, r1) \<and>
           (case find (covers (store s) px py) as of
              None \<Rightarrow> \<not> r1 \<and> s1 = s
            | Some a \<Rightarrow>
                if a = hd as then \<not> r1 \<and> s1 = s
                else r1 \<and> dll s1 (a # remove1 a as)
                  \<and> (\<forall>x. tile_at (store s1) x = tile_at (store s) x))"
    using 1 by (simp split: option.splits if_splits)
  moreover have "lower px py s = Some (s2, r2) \<and>
           (case find (covers (store s) px py) as of
              None \<Rightarrow> \<not> r2 \<and> s2 = s
            | Some a \<Rightarrow>
                if a = last as then \<not> r2 \<and> s2 = s
                else r2 \<and> dll s2 (remove1 a as @ [a])
                  \<and> (\<forall>x. tile_at (store s2) x = tile_at (store s) x))"
    using 2 by (simp split: option.splits if_splits)
  ultimately show ?thesis by blast
qed

theorem raise_lower_move_witness:
  "dll two_tiles [0, 1]
   \<and> raise 6 6 two_tiles = Some (two_tiles, False)
   \<and> (\<exists>s'. raise 12 12 two_tiles = Some (s', True) \<and> dll s' [1, 0])
   \<and> raise 20 20 two_tiles = Some (two_tiles, False)
   \<and> (\<exists>s'. lower 6 6 two_tiles = Some (s', True) \<and> dll s' [1, 0])
   \<and> lower 12 12 two_tiles = Some (two_tiles, False)
   \<and> lower 20 20 two_tiles = Some (two_tiles, False)"
  using raise_lower_move [OF dll_two_tiles, of 6 6]
    raise_lower_move [OF dll_two_tiles, of 12 12]
    raise_lower_move [OF dll_two_tiles, of 20 20]
    dll_two_tiles
  by (auto simp: covers_two_tiles sword_simps)

text \<open>
  C3. The claim is that \<^verbatim>\<open>raise\<close> returns true whenever some tile contains the point,
  also when the first such tile is already the front one. The code has the guard
  \<^verbatim>\<open>tile != front\<close>: on the example list the red tile contains (6, 6) and is the front
  one, and \<^verbatim>\<open>raise(6, 6)\<close> returns false.
\<close>

theorem raise_front_match_counterexample:
  "run [AddFront 1 5 5 10 10 ''blue'', AddFront 0 0 0 10 10 ''red''] (TileList_init Map.empty)
     = Some two_tiles
   \<and> covers (store two_tiles) 6 6 0 \<and> raise 6 6 two_tiles = Some (two_tiles, False)"
  using raise_dll [OF dll_two_tiles, of 6 6] two_tiles_run
  by (auto simp: covers_two_tiles sword_simps)

text \<open>
  C3, as amended. On a well-formed list \<^verbatim>\<open>raise\<close> returns true exactly when some node
  contains the point and the first such node is not already the front one.
\<close>

theorem raise_true_iff_moved:
  assumes "dll s as"
  shows "\<exists>s' r. raise px py s = Some (s', r)
           \<and> (r \<longleftrightarrow> (\<exists>a. find (covers (store s) px py) as = Some a \<and> a \<noteq> hd as))"
  using raise_dll [OF assms, of px py]
  by (cases "find (covers (store s) px py) as") auto

theorem raise_true_iff_moved_witness:
  "dll two_tiles [0, 1] \<and> map_option snd (raise 12 12 two_tiles) = Some True
     \<and> map_option snd (raise 6 6 two_tiles) = Some False"
  using raise_true_iff_moved [OF dll_two_tiles, of 12 12]
    raise_true_iff_moved [OF dll_two_tiles, of 6 6] dll_two_tiles
  by (auto simp: covers_two_tiles sword_simps)

text \<open>
  C4. On a well-formed list in which some node contains the point, with \<open>a\<close> the address
  the allocator returns (one that was not alive, or the address of a node just deleted),
  \<^verbatim>\<open>merge\<close> returns; every node that contained the point is deleted; the list holds
  one new node in front of the nodes that did not contain the point, which keep their order
  and their tiles; the new node has the colour of the first node found before any change,
  and its rectangle is the smallest box around the rectangles of the deleted nodes, so it
  contains every point any of them contained. The example of the spec is the witness: red
  (0, 0, 10, 10) in front of blue (5, 5, 10, 10), merged at (6, 6), give the single tile
  (0, 0, 15, 15, red), at a new address as well as at the address of the deleted blue
  node.
\<close>

theorem merge_bounding_box:
  assumes "dll s as" and "find (covers (store s) px py) as = Some a0"
    and "store s a = None \<or> (a \<in> set as \<and> covers (store s) px py a)"
  shows "\<exists>s' n t0. merge a px py s = Some s'
           \<and> dll s' (a # filter (\<lambda>x. \<not> covers (store s) px py x) as)
           \<and> store s a0 = Some t0 \<and> store s' a = Some n \<and> color n = color t0
           \<and> bounding_box n (matching (store s) px py as)
           \<and> (\<forall>t\<in>set (matching (store s) px py as). \<forall>p q. contains t p q \<longrightarrow> contains n p q)
           \<and> (\<forall>x. x \<in> set as \<and> covers (store s) px py x \<and> x \<noteq> a \<longrightarrow> store s' x = None)
           \<and> (\<forall>x. x \<noteq> a \<and> \<not> (x \<in> set as \<and> covers (store s) px py x)
                  \<longrightarrow> tile_at (store s') x = tile_at (store s) x)"
proof -
  from merge_dll [OF assms] obtain s' n t0 where m:
    "merge a px py s = Some s'
           \<and> dll s' (a # filter (\<lambda>x. \<not> covers (store s) px py x) as)
           \<and> store s a0 = Some t0 \<and> store s' a = Some n \<and> color n = color t0
           \<and> bounding_box n (matching (store s) px py as)
           \<and> (\<forall>x. x \<in> set as \<and> covers (store s) px py x \<and> x \<noteq> a \<longrightarrow> store s' x = None)
           \<and> (\<forall>x. x \<noteq> a \<and> \<not> (x \<in> set as \<and> covers (store s) px py x)
                  \<longrightarrow> tile_at (store s') x = tile_at (store s) x)"
    by blast
  then have "bounding_box n (matching (store s) px py as)" by simp
  then have "\<forall>t\<in>set (matching (store s) px py as). \<forall>p q. contains t p q \<longrightarrow> contains n p q"
    using bounding_box_contains by blast
  with m show ?thesis by blast
qed

theorem merge_bounding_box_witness:
  "dll two_tiles [0, 1] \<and> find (covers (store two_tiles) 6 6) [0, 1] = Some 0
   \<and> store two_tiles 2 = None
   \<and> (\<exists>s'. merge 2 6 6 two_tiles = Some s' \<and> dll s' [2]
         \<and> tile_at (store s') 2 = Some (0, 0, 15, 15, ''red'')
         \<and> store s' 0 = None \<and> store s' 1 = None)
   \<and> covers (store two_tiles) 6 6 1
   \<and> (\<exists>s'. merge 1 6 6 two_tiles = Some s' \<and> dll s' [1]
         \<and> tile_at (store s') 1 = Some (0, 0, 15, 15, ''red'')
         \<and> store s' 0 = None)"
proof -
  have f: "store two_tiles 2 = None" by (simp add: two_tiles_def)
  have r: "store two_tiles 0
     = Some \<lparr>tx = 0, ty = 0, width = 10, height = 10, color = ''red'', prev = None, next = Some 1\<rparr>"
    by (simp add: two_tiles_def)
  have c: "covers (store two_tiles) 6 6 0" "covers (store two_tiles) 6 6 1"
    by (simp_all add: covers_two_tiles sword_simps)
  have box: "tile_of n = (0, 0, 15, 15, ''red'')"
    if "bounding_box n
      [\<lparr>tx = 0, ty = 0, width = 10, height = 10, color = ''red'', prev = None, next = Some 1\<rparr>,
       \<lparr>tx = 5, ty = 5, width = 10, height = 10, color = ''blue'', prev = Some 0, next = None\<rparr>]"
      "color n = ''red''" for n
  proof -
    have x: "tx n = 0" "tx n + width n = 15" "ty n = 0" "ty n + height n = 15"
      using that(1) by (auto simp: bounding_box_def sword_simps)
    have "width n = 15" "height n = 15" using x by simp_all
    then show ?thesis using x that(2) by (simp add: tile_of_def)
  qed
  have reuse: "store two_tiles 1 = None \<or> (1 \<in> set [0, 1] \<and> covers (store two_tiles) 6 6 1)"
    using c by simp
  from merge_bounding_box [OF dll_two_tiles find_two_tiles(1) disjI1 [OF f],
      unfolded matching_two_tiles filter_two_tiles]
  obtain s' n t0 where m: "merge 2 6 6 two_tiles = Some s'" "dll s' [2]"
    "store two_tiles 0 = Some t0" "store s' 2 = Some n" "color n = color t0"
    "bounding_box n
      [\<lparr>tx = 0, ty = 0, width = 10, height = 10, color = ''red'', prev = None, next = Some 1\<rparr>,
       \<lparr>tx = 5, ty = 5, width = 10, height = 10, color = ''blue'', prev = Some 0, next = None\<rparr>]"
    "\<forall>x. x \<in> set [0, 1] \<and> covers (store two_tiles) 6 6 x \<and> x \<noteq> 2 \<longrightarrow> store s' x = None"
    by blast
  have "t0 = \<lparr>tx = 0, ty = 0, width = 10, height = 10, color = ''red'', prev = None,
      next = Some 1\<rparr>"
    using m(3) r by simp
  then have "color n = ''red''" using m(5) by simp
  then have t: "tile_at (store s') 2 = Some (0, 0, 15, 15, ''red'')"
    using m(4) box [OF m(6)] by (simp add: tile_at_def)
  have d: "store s' 0 = None" "store s' 1 = None" using m(7) c by auto
  from merge_bounding_box [OF dll_two_tiles find_two_tiles(1) reuse,
      unfolded matching_two_tiles filter_two_tiles]
  obtain u' k u0 where m': "merge 1 6 6 two_tiles = Some u'" "dll u' [1]"
    "store two_tiles 0 = Some u0" "store u' 1 = Some k" "color k = color u0"
    "bounding_box k
      [\<lparr>tx = 0, ty = 0, width = 10, height = 10, color = ''red'', prev = None, next = Some 1\<rparr>,
       \<lparr>tx = 5, ty = 5, width = 10, height = 10, color = ''blue'', prev = Some 0, next = None\<rparr>]"
    "\<forall>x. x \<in> set [0, 1] \<and> covers (store two_tiles) 6 6 x \<and> x \<noteq> 1 \<longrightarrow> store u' x = None"
    by blast
  have "u0 = \<lparr>tx = 0, ty = 0, width = 10, height = 10, color = ''red'', prev = None,
      next = Some 1\<rparr>"
    using m'(3) r by simp
  then have "color k = ''red''" using m'(5) by simp
  then have t': "tile_at (store u') 1 = Some (0, 0, 15, 15, ''red'')"
    using m'(4) box [OF m'(6)] by (simp add: tile_at_def)
  have d': "store u' 0 = None" using m'(7) c by auto
  show ?thesis using dll_two_tiles find_two_tiles(1) f m(1,2) t d c(2) m'(1,2) t' d' by blast
qed

text \<open>
  C5. On a well-formed list, \<^verbatim>\<open>removeAll\<close> returns; the nodes that contained the point
  are deleted, wherever they were in the list; the list holds the other nodes, in their
  order and with their tiles, and none of them contains the point; the number returned is
  the number of deleted nodes as an \<^verbatim>\<open>int\<close>, which is that number itself below
  \<open>2 ^ 31\<close>. The nodes go in the order in which \<^verbatim>\<open>findTile\<close> meets them, front to back:
  \<^verbatim>\<open>removeAll\<close> does what \<^verbatim>\<open>remove\<close> does to the first node that contains the point
  and then what \<^verbatim>\<open>removeAll\<close> does to the list that is left, counting one more. For
  three stacked tiles over the point it returns 3 and the list is empty.
\<close>

theorem removeAll_drains:
  assumes "dll s as"
  shows "\<exists>s'. removeAll_tiles px py s
             = Some (s', of_nat (length (filter (covers (store s) px py) as)))
           \<and> dll s' (filter (\<lambda>x. \<not> covers (store s) px py x) as)
           \<and> (\<forall>x. x \<in> set as \<and> covers (store s) px py x \<longrightarrow> store s' x = None)
           \<and> (\<forall>x. \<not> (x \<in> set as \<and> covers (store s) px py x)
                  \<longrightarrow> tile_at (store s') x = tile_at (store s) x)
           \<and> (\<forall>x\<in>set (filter (\<lambda>x. \<not> covers (store s) px py x) as).
                  \<not> covers (store s') px py x)
           \<and> (length (filter (covers (store s) px py) as) < 2 ^ 31 \<longrightarrow>
                  sint (of_nat (length (filter (covers (store s) px py) as)) :: cint)
                    = int (length (filter (covers (store s) px py) as)))
           \<and> (\<forall>a. find (covers (store s) px py) as = Some a \<longrightarrow>
                 (\<exists>s1. remove px py s = Some (s1, True)
                    \<and> removeAll_tiles px py s
                         = map_option (\<lambda>(s', n). (s', n + 1)) (removeAll_tiles px py s1)))"
proof -
  let ?C = "covers (store s) px py"
  from removeAll_loop_dll [OF assms, where px = px and py = py and k = 0] obtain s' where l:
    "removeAll_loop px py s 0 = Some (s', 0 + of_nat (length (filter ?C as)))
     \<and> dll s' (filter (\<lambda>x. \<not> ?C x) as)
     \<and> (\<forall>x. x \<in> set as \<and> ?C x \<longrightarrow> store s' x = None)
     \<and> (\<forall>x. \<not> (x \<in> set as \<and> ?C x) \<longrightarrow> tile_at (store s') x = tile_at (store s) x)
     \<and> (\<forall>x. x \<notin> set as \<longrightarrow> store s' x = store s x)" ..
  have 1: "removeAll_tiles px py s = Some (s', of_nat (length (filter ?C as)))"
    using l by (simp add: removeAll_tiles_def)
  have 2: "\<not> covers (store s') px py x" if "x \<in> set (filter (\<lambda>x. \<not> ?C x) as)" for x
  proof -
    have "\<not> ?C x" using that by simp
    moreover have "tile_at (store s') x = tile_at (store s) x" using l that by simp
    ultimately show ?thesis using covers_tile_at [of "store s'" x "store s" px py] by simp
  qed
  have 3: "sint (of_nat k :: cint) = int k" if "k < 2 ^ 31" for k :: nat
  proof -
    have "signed_take_bit 31 (int k) = int k"
      by (rule signed_take_bit_int_eq_self) (use that in auto)
    then show ?thesis by (simp add: signed_of_nat)
  qed
  have 4: "\<exists>s1. remove px py s = Some (s1, True)
                    \<and> removeAll_tiles px py s
                         = map_option (\<lambda>(s', n). (s', n + 1)) (removeAll_tiles px py s1)"
    if "find ?C as = Some a" for a
    using removeAll_first [OF assms that] .
  show ?thesis using 1 2 3 4 l by blast
qed

theorem removeAll_drains_witness:
  "dll three_tiles [0, 1, 2]
   \<and> (\<exists>s'. removeAll_tiles 6 6 three_tiles = Some (s', 3) \<and> dll s' []
         \<and> store s' 0 = None \<and> store s' 1 = None \<and> store s' 2 = None)
   \<and> (\<exists>s'. removeAll_tiles 1 1 three_tiles = Some (s', 1) \<and> dll s' [1, 2]
         \<and> store s' 0 = None
         \<and> tile_at (store s') 1 = Some (5, 5, 10, 10, ''blue'')
         \<and> tile_at (store s') 2 = Some (2, 2, 10, 10, ''green''))"
proof -
  have t: "tile_at (store three_tiles) 1 = Some (5, 5, 10, 10, ''blue'')"
    "tile_at (store three_tiles) 2 = Some (2, 2, 10, 10, ''green'')"
    by (simp_all add: three_tiles_def tile_at_def tile_of_def)
  have c: "covers (store three_tiles) 6 6 0" "covers (store three_tiles) 6 6 1"
    "covers (store three_tiles) 6 6 2" "covers (store three_tiles) 1 1 0"
    "\<not> covers (store three_tiles) 1 1 1" "\<not> covers (store three_tiles) 1 1 2"
    by (simp_all add: covers_three_tiles sword_simps)
  have 1: "\<exists>s'. removeAll_tiles 6 6 three_tiles = Some (s', 3) \<and> dll s' []
         \<and> store s' 0 = None \<and> store s' 1 = None \<and> store s' 2 = None"
    using removeAll_drains [OF dll_three_tiles, of 6 6, unfolded filter_three_tiles] c
    by auto
  have 2: "\<exists>s'. removeAll_tiles 1 1 three_tiles = Some (s', 1) \<and> dll s' [1, 2]
         \<and> store s' 0 = None
         \<and> tile_at (store s') 1 = Some (5, 5, 10, 10, ''blue'')
         \<and> tile_at (store s') 2 = Some (2, 2, 10, 10, ''green'')"
    using removeAll_drains [OF dll_three_tiles, of 1 1, unfolded filter_three_tiles] c t
    by auto
  show ?thesis using dll_three_tiles 1 2 by blast
qed

text \<open>
  C6. On a well-formed list none of whose nodes contains the point, so also on the empty
  list, \<^verbatim>\<open>findTile\<close> returns \<^verbatim>\<open>nullptr\<close>, \<^verbatim>\<open>highlight\<close>, \<^verbatim>\<open>raise\<close>, \<^verbatim>\<open>lower\<close> and
  \<^verbatim>\<open>remove\<close> return false, \<^verbatim>\<open>removeAll\<close> returns 0 and \<^verbatim>\<open>merge\<close> returns; each of
  them returns normally and leaves the state exactly as it was.
\<close>

theorem no_match_no_effect:
  assumes "dll s as" and "\<forall>x\<in>set as. \<not> covers (store s) px py x"
  shows "findTile px py s = Some None
       \<and> highlight px py s = Some (s, False)
       \<and> raise px py s = Some (s, False)
       \<and> lower px py s = Some (s, False)
       \<and> remove px py s = Some (s, False)
       \<and> removeAll_tiles px py s = Some (s, 0)
       \<and> merge a px py s = Some s"
proof -
  have f: "findTile px py s = Some None"
    using findTile_dll [OF assms(1), of px py] assms(2) by (simp add: find_None_iff2)
  have "removeAll_loop px py s 0 = Some (s, 0)"
    using f by (subst removeAll_loop.simps) simp
  then have "removeAll_tiles px py s = Some (s, 0)" by (simp add: removeAll_tiles_def)
  moreover have "merge a px py s = Some s" using assms by (rule merge_none)
  ultimately show ?thesis
    using f by (simp add: highlight_def raise_def lower_def remove_def)
qed

theorem no_match_no_effect_witness:
  "dll (TileList_init Map.empty) []
   \<and> findTile 3 4 (TileList_init Map.empty) = Some None
   \<and> highlight 3 4 (TileList_init Map.empty) = Some (TileList_init Map.empty, False)
   \<and> raise 3 4 (TileList_init Map.empty) = Some (TileList_init Map.empty, False)
   \<and> lower 3 4 (TileList_init Map.empty) = Some (TileList_init Map.empty, False)
   \<and> remove 3 4 (TileList_init Map.empty) = Some (TileList_init Map.empty, False)
   \<and> removeAll_tiles 3 4 (TileList_init Map.empty) = Some (TileList_init Map.empty, 0)
   \<and> merge 0 3 4 (TileList_init Map.empty) = Some (TileList_init Map.empty)
   \<and> dll two_tiles [0, 1]
   \<and> \<not> covers (store two_tiles) 20 20 0 \<and> \<not> covers (store two_tiles) 20 20 1
   \<and> findTile 20 20 two_tiles = Some None
   \<and> remove 20 20 two_tiles = Some (two_tiles, False)
   \<and> removeAll_tiles 20 20 two_tiles = Some (two_tiles, 0)
   \<and> merge 2 20 20 two_tiles = Some two_tiles"
proof -
  have e: "dll (TileList_init Map.empty) []" by (simp add: dll_def TileList_init_def)
  have n: "\<forall>x\<in>set [0, 1]. \<not> covers (store two_tiles) 20 20 x"
    by (simp add: covers_two_tiles sword_simps)
  show ?thesis
    using no_match_no_effect [OF e, of 3 4 0] no_match_no_effect [OF dll_two_tiles n, of 2]
      e dll_two_tiles n
    by simp
qed

text \<open>
  C7. The list the constructor makes is well formed. From a well-formed list every public
  operation (\<^verbatim>\<open>addFront\<close>, \<^verbatim>\<open>addBack\<close>, \<^verbatim>\<open>highlight\<close>, \<^verbatim>\<open>raise\<close>, \<^verbatim>\<open>lower\<close>,
  \<^verbatim>\<open>remove\<close>, \<^verbatim>\<open>removeAll\<close>, \<^verbatim>\<open>merge\<close>, \<^verbatim>\<open>clear\<close>) returns, and the list is well
  formed again; so the list is well formed after every sequence of calls that starts from the
  empty list. Well formed: \<^verbatim>\<open>front\<close> is null iff \<^verbatim>\<open>back\<close> is; the nodes from \<^verbatim>\<open>front\<close>
  along \<^verbatim>\<open>next\<close> are all different and end at \<^verbatim>\<open>back\<close>; \<^verbatim>\<open>prev\<close> of a node is the
  node before it and \<^verbatim>\<open>next\<close> the node after it; the first node has no \<^verbatim>\<open>prev\<close> and
  the last no \<^verbatim>\<open>next\<close>.
\<close>

theorem operations_keep_well_formed:
  "well_formed (TileList_init h0)
   \<and> (well_formed s \<and> fresh_for op s \<longrightarrow> (\<exists>s'. exec op s = Some s' \<and> well_formed s'))
   \<and> (run ops (TileList_init h0) = Some s1 \<longrightarrow> well_formed s1)"
proof -
  have 0: "well_formed (TileList_init h0)"
    unfolding well_formed_dll by (rule exI [of _ "[]"]) (simp add: dll_def TileList_init_def)
  have 1: "\<exists>s'. exec op s = Some s' \<and> well_formed s'" if "well_formed s" "fresh_for op s"
    for s op
    using that exec_dll unfolding well_formed_dll by blast
  have 2: "well_formed s1" if "run ops s = Some s1" "well_formed s" for s
    using that
  proof (induction ops arbitrary: s)
    case Nil
    then show ?case by simp
  next
    case (Cons op ops)
    then obtain s' where s': "exec op s = Some s'" "run ops s' = Some s1"
      by (auto split: option.splits)
    have "well_formed s'"
      using Cons.prems(2) exec_Some_dll [OF _ s'(1)] unfolding well_formed_dll by blast
    then show ?case using Cons.IH [OF s'(2)] by blast
  qed
  show ?thesis using 0 1 2 by blast
qed

theorem operations_keep_well_formed_witness:
  "well_formed (TileList_init Map.empty)
   \<and> run [AddFront 1 5 5 10 10 ''blue'', AddFront 0 0 0 10 10 ''red'']
        (TileList_init Map.empty) = Some two_tiles
   \<and> well_formed two_tiles
   \<and> fresh_for (Merge 2 6 6) two_tiles
   \<and> (\<exists>s'. exec (Merge 2 6 6) two_tiles = Some s' \<and> well_formed s')"
proof -
  have r: "run [AddFront 1 5 5 10 10 ''blue'', AddFront 0 0 0 10 10 ''red'']
        (TileList_init Map.empty) = Some two_tiles"
    by (rule two_tiles_run)
  have f: "fresh_for (Merge 2 6 6) two_tiles"
  proof -
    from removeAll_loop_dll [OF dll_two_tiles, where px = 6 and py = 6 and k = 0]
    obtain s1 k where "removeAll_loop 6 6 two_tiles 0 = Some (s1, k)"
      "\<forall>x. x \<notin> set [0, 1] \<longrightarrow> store s1 x = store two_tiles x"
      by blast
    then show ?thesis by (simp add: removeAll_tiles_def two_tiles_def)
  qed
  have w: "well_formed two_tiles"
    using operations_keep_well_formed [of Map.empty two_tiles Clear
        "[AddFront 1 5 5 10 10 ''blue'', AddFront 0 0 0 10 10 ''red'']" two_tiles] r
    by simp
  show ?thesis
    using operations_keep_well_formed [of Map.empty two_tiles "Merge 2 6 6" "[]" two_tiles]
      r f w
    by simp
qed

text \<open>
  C8. The claim is that after \<^verbatim>\<open>raise\<close>, \<^verbatim>\<open>lower\<close> or \<^verbatim>\<open>remove\<close> the set of
  neighbour pairs that do not involve the moved or removed tile is unchanged. When that tile
  had a neighbour on each side, the two are neighbours afterwards: on the three example
  tiles \<^verbatim>\<open>raise(13, 13)\<close> moves the middle tile 1 to the front, and (0, 2), which was not
  a neighbour pair of 0, 1, 2, is one of 1, 0, 2.
\<close>

theorem neighbour_pairs_counterexample:
  "run [AddFront 0 0 0 10 10 ''red'', AddBack 1 5 5 10 10 ''blue'',
        AddBack 2 2 2 10 10 ''green''] (TileList_init Map.empty)
     = Some three_tiles
   \<and> dll three_tiles [0, 1, 2]
   \<and> find (covers (store three_tiles) 13 13) [0, 1, 2] = Some 1
   \<and> raise 13 13 three_tiles = Some (three_tiles_raised, True)
   \<and> dll three_tiles_raised [1, 0, 2]
   \<and> (0, 2) \<in> neighbours [1, 0, 2] \<and> (0, 2) \<notin> neighbours [0, 1, 2]"
proof -
  have "dll three_tiles_raised [1, 0, 2]" by (simp add: dll_def three_tiles_raised_def)
  moreover have "(0, 2) \<in> neighbours [1, 0, 2]" "(0, 2) \<notin> neighbours [0, 1, 2]"
    by (simp_all add: neighbours_def)
  ultimately show ?thesis
    using three_tiles_run dll_three_tiles find_three_tiles raised_eq by simp
qed

text \<open>
  C8, as amended. On a well-formed list \<^verbatim>\<open>raise\<close>, \<^verbatim>\<open>lower\<close> and \<^verbatim>\<open>remove\<close> return
  and the list is again a sequence of different nodes, all alive: the same nodes after
  \<^verbatim>\<open>raise\<close> and \<^verbatim>\<open>lower\<close>, the same without the removed one after \<^verbatim>\<open>remove\<close>. The
  nodes other than the moved or removed one are in the same order as before; every
  neighbour pair that does not involve it is still a neighbour pair; and the neighbour
  pairs without it are afterwards those of the old sequence with it left out, so its two
  former neighbours have become a pair. With no node at the point the sequence is unchanged.
\<close>

theorem move_keeps_others:
  assumes "dll s as"
  shows "(\<exists>s' r as'. raise px py s = Some (s', r) \<and> dll s' as' \<and> set as' = set as
           \<and> (case find (covers (store s) px py) as of
                 None \<Rightarrow> as' = as
               | Some a \<Rightarrow> others_kept a as as'))
       \<and> (\<exists>s' r as'. lower px py s = Some (s', r) \<and> dll s' as' \<and> set as' = set as
           \<and> (case find (covers (store s) px py) as of
                 None \<Rightarrow> as' = as
               | Some a \<Rightarrow> others_kept a as as'))
       \<and> (\<exists>s' r as'. remove px py s = Some (s', r) \<and> dll s' as'
           \<and> (case find (covers (store s) px py) as of
                 None \<Rightarrow> as' = as
               | Some a \<Rightarrow> others_kept a as as' \<and> set as' = set as - {a}))"
  using raise_others [OF assms, of px py] lower_others [OF assms, of px py]
    remove_others [OF assms, of px py]
  by (intro conjI)

theorem move_keeps_others_witness:
  "dll three_tiles [0, 1, 2]
   \<and> (\<exists>s' r as'. raise 13 13 three_tiles = Some (s', r) \<and> dll s' as'
         \<and> set as' = {0, 1, 2} \<and> others_kept 1 [0, 1, 2] as')
   \<and> (\<exists>s' r as'. lower 13 13 three_tiles = Some (s', r) \<and> dll s' as'
         \<and> set as' = {0, 1, 2} \<and> others_kept 1 [0, 1, 2] as')
   \<and> (\<exists>s' r as'. remove 13 13 three_tiles = Some (s', r) \<and> dll s' as'
         \<and> others_kept 1 [0, 1, 2] as' \<and> set as' = {0, 2})"
proof -
  have e: "{0, Suc 0, 2} - {Suc 0} = {0, 2 :: nat}" by auto
  show ?thesis
    using move_keeps_others [OF dll_three_tiles, of 13 13, unfolded find_three_tiles]
      dll_three_tiles
    by (simp add: e)
qed

text \<open>
  C9. On a well-formed list, with \<open>a\<close> the address the allocator returns, \<^verbatim>\<open>addFront\<close>
  and \<^verbatim>\<open>addBack\<close> always return; the list then holds the new node at the named end, in
  front of or behind the nodes it held, so one node more; the new node carries exactly the
  five values passed, whatever the width and the height are; and every other node carries
  the tile it carried.
\<close>

theorem add_never_fails:
  assumes "dll s as" and "store s a = None"
  shows "(\<exists>s'. addFront a px py w h c s = Some s' \<and> dll s' (a # as)
            \<and> tile_at (store s') a = Some (px, py, w, h, c)
            \<and> (\<forall>x. x \<noteq> a \<longrightarrow> tile_at (store s') x = tile_at (store s) x))
       \<and> (\<exists>s'. addBack a px py w h c s = Some s' \<and> dll s' (as @ [a])
            \<and> tile_at (store s') a = Some (px, py, w, h, c)
            \<and> (\<forall>x. x \<noteq> a \<longrightarrow> tile_at (store s') x = tile_at (store s) x))
       \<and> length (a # as) = length as + 1 \<and> length (as @ [a]) = length as + 1"
  using addFront_dll [OF assms, of px py w h c] addBack_dll [OF assms, of px py w h c]
  by auto

theorem add_never_fails_witness:
  "dll two_tiles [0, 1] \<and> store two_tiles 2 = None
   \<and> (\<exists>s'. addFront 2 3 4 0 (- 7) ''green'' two_tiles = Some s' \<and> dll s' [2, 0, 1]
         \<and> tile_at (store s') 2 = Some (3, 4, 0, - 7, ''green''))
   \<and> (\<exists>s'. addBack 2 3 4 0 (- 7) ''green'' two_tiles = Some s' \<and> dll s' [0, 1, 2]
         \<and> tile_at (store s') 2 = Some (3, 4, 0, - 7, ''green''))"
proof -
  have f: "store two_tiles 2 = None" by (simp add: two_tiles_def)
  show ?thesis
    using add_never_fails [OF dll_two_tiles f, of 3 4 0 "- 7" "''green''"] dll_two_tiles f
    by auto
qed

text \<open>
  C10. On a well-formed list, \<^verbatim>\<open>highlight\<close> returns true when some node contains the
  point, and then the only change is that the colour of the first such node is
  \<^verbatim>\<open>"yellow"\<close>: the two pointers of the list, every other node, and the geometry and the
  links of that node are as before, so the order is unchanged. When no node contains the
  point it returns false and changes nothing.
\<close>

theorem highlight_first_match:
  assumes "dll s as"
  shows "\<exists>s' r. highlight px py s = Some (s', r) \<and> dll s' as \<and>
           (case find (covers (store s) px py) as of
              None \<Rightarrow> \<not> r \<and> s' = s
            | Some a \<Rightarrow>
                r \<and> (\<exists>n. store s a = Some n
                        \<and> s' = s\<lparr>store := (store s)(a \<mapsto> n\<lparr>color := ''yellow''\<rparr>)\<rparr>))"
  using highlight_dll [OF assms, of px py] dll_color [OF assms] assms
  by (cases "find (covers (store s) px py) as") auto

theorem highlight_first_match_witness:
  "dll two_tiles [0, 1]
   \<and> (\<exists>s'. highlight 6 6 two_tiles = Some (s', True) \<and> dll s' [0, 1]
         \<and> tile_at (store s') 0 = Some (0, 0, 10, 10, ''yellow'')
         \<and> tile_at (store s') 1 = Some (5, 5, 10, 10, ''blue''))
   \<and> highlight 20 20 two_tiles = Some (two_tiles, False)"
proof -
  have n: "store two_tiles 0 = Some \<lparr>tx = 0, ty = 0, width = 10, height = 10, color = ''red'',
                        prev = None, next = Some 1\<rparr>"
    by (simp add: two_tiles_def)
  obtain s' where 1: "highlight 6 6 two_tiles = Some (s', True)" "dll s' [0, 1]"
    and 2: "s' = two_tiles\<lparr>store := (store two_tiles)(0 \<mapsto>
              \<lparr>tx = 0, ty = 0, width = 10, height = 10, color = ''yellow'',
                        prev = None, next = Some 1\<rparr>)\<rparr>"
    using highlight_first_match [OF dll_two_tiles, of 6 6, unfolded find_two_tiles] n
    by auto
  have 3: "tile_at (store s') 0 = Some (0, 0, 10, 10, ''yellow'')"
    "tile_at (store s') 1 = Some (5, 5, 10, 10, ''blue'')"
    by (simp_all add: 2 two_tiles_def tile_at_def tile_of_def)
  have 4: "highlight 20 20 two_tiles = Some (two_tiles, False)"
    using highlight_first_match [OF dll_two_tiles, of 20 20, unfolded find_two_tiles]
    by auto
  show ?thesis using dll_two_tiles 1 3 4 by blast
qed

end
